theory Spec2Isabelle
  imports Complex_Main "HOL-Library.AList" "HOL-Library.Multiset"
begin

section \<open>Duplicate image detection and resolution (image_clone_remover.py)\<close>

text \<open>
  The development follows \<^verbatim>\<open>DuplicateImageDetector\<close> of \<^verbatim>\<open>image_clone_remover.py\<close>:
  the scan, the fingerprints and the index built by the worker pool, the choice of the
  file to keep, and the backup and deletion of the others; and, for the prefix hash,
  \<^verbatim>\<open>AdvancedImageSorter\<close> of \<^verbatim>\<open>image_splitter_by_ratio.py\<close>. Python dictionaries keep
  insertion order, so they are association lists read with \<^const>\<open>map_of\<close> and written
  with \<^const>\<open>AList.update\<close> (an existing key keeps its place, a new key goes to the
  end). PIL and hashlib, whose code is not part of the repository, are parameters of
  the functions that call them; the file system is a finite table, with the errors
  the environment may raise as a parameter. An exception is a value: \<open>None\<close>, or the
  left summand with the message.
\<close>

type_synonym path = string

subsection \<open>Python's \<^verbatim>\<open>str\<close> on non-negative integers\<close>

definition digit_char :: "nat \<Rightarrow> char" where
  "digit_char d = ''0123456789'' ! d"

fun str_nat :: "nat \<Rightarrow> string" where
  "str_nat n = (if n < 10 then [digit_char n] else str_nat (n div 10) @ [digit_char (n mod 10)])"

declare str_nat.simps [simp del]

subsection \<open>Fingerprints\<close>

text \<open>
  \<^verbatim>\<open>calculate_image_hash\<close>: the image is opened, converted to RGB, resized to 8 by 8,
  converted to grey levels; the 64 grey levels are written in decimal one after the
  other with no separator, and the MD5 hex digest of that string is the fingerprint.
  Any exception gives \<^verbatim>\<open>None\<close>. The parameter \<open>load_pixels\<close> is PIL's part (the list of
  grey levels of the thumbnail, or \<open>None\<close> when PIL raises); \<open>md5\<close> is
  \<^verbatim>\<open>hashlib.md5(...).hexdigest()\<close>.
\<close>

definition pixel_string :: "nat list \<Rightarrow> string" where
  "pixel_string pixels = concat (map str_nat pixels)"

definition calculate_image_hash ::
  "(path \<Rightarrow> nat list option) \<Rightarrow> (string \<Rightarrow> string) \<Rightarrow> path \<Rightarrow> string option" where
  "calculate_image_hash load_pixels md5 image_path =
     (case load_pixels image_path of
        None \<Rightarrow> None
      | Some pixels \<Rightarrow> Some (md5 (pixel_string pixels)))"

text \<open>
  \<^verbatim>\<open>calculate_file_hash\<close> of the image sorter: the MD5 hex digest of the first 8192 bytes
  of the file (\<^verbatim>\<open>f.read(8192)\<close>); the empty string when the file cannot be read.
  \<open>read_file\<close> gives the bytes of a file, \<open>None\<close> when opening or reading raises.
\<close>

definition calculate_file_hash ::
  "(path \<Rightarrow> string option) \<Rightarrow> (string \<Rightarrow> string) \<Rightarrow> path \<Rightarrow> string" where
  "calculate_file_hash read_file md5 filepath =
     (case read_file filepath of
        None \<Rightarrow> []
      | Some bytes \<Rightarrow> md5 (take 8192 bytes))"

subsection \<open>The detector's state and \<^verbatim>\<open>process_image\<close>\<close>

record detector =
  max_threads :: nat
  image_hashes :: "(string \<times> path) list"
  duplicates :: "(string \<times> path list) list"
  processed_count :: nat
  total_files :: nat

definition init_detector :: "nat \<Rightarrow> detector" where
  "init_detector n =
     \<lparr>max_threads = n, image_hashes = [], duplicates = [], processed_count = 0, total_files = 0\<rparr>"

text \<open>Both dictionaries are empty when a detector is created.\<close>

definition fresh_index :: "detector \<Rightarrow> bool" where
  "fresh_index st \<longleftrightarrow> image_hashes st = [] \<and> duplicates st = []"

text \<open>
  \<^verbatim>\<open>self.duplicates\<close> is a \<^verbatim>\<open>defaultdict(list)\<close>: \<^verbatim>\<open>d[k].append(x)\<close> creates the key with
  an empty list when it is missing, then appends.
\<close>

definition dd_append :: "(string \<times> path list) list \<Rightarrow> string \<Rightarrow> path \<Rightarrow> (string \<times> path list) list" where
  "dd_append d k x =
     AList.update k ((case map_of d k of None \<Rightarrow> [] | Some l \<Rightarrow> l) @ [x]) d"

text \<open>
  The body of \<^verbatim>\<open>process_image\<close>. \<^verbatim>\<open>if hash_value:\<close> is false for \<^verbatim>\<open>None\<close> and for the
  empty string; everything else, the counter included, is inside that branch and
  inside the lock.
\<close>

definition process_image ::
  "(path \<Rightarrow> nat list option) \<Rightarrow> (string \<Rightarrow> string) \<Rightarrow> detector \<Rightarrow> path \<Rightarrow> detector" where
  "process_image load_pixels md5 st image_path =
     (case calculate_image_hash load_pixels md5 image_path of
        None \<Rightarrow> st
      | Some hash_value \<Rightarrow>
          if hash_value = [] then st
          else
            let st1 =
              (case map_of (image_hashes st) hash_value of
                 Some first_path \<Rightarrow>
                   let d1 = (if map_of (duplicates st) hash_value = None
                             then dd_append (duplicates st) hash_value first_path
                             else duplicates st)
                   in st\<lparr>duplicates := dd_append d1 hash_value image_path\<rparr>
               | None \<Rightarrow>
                   st\<lparr>image_hashes := AList.update hash_value image_path (image_hashes st)\<rparr>)
            in st1\<lparr>processed_count := processed_count st1 + 1\<rparr>)"

text \<open>
  The worker pool runs \<^verbatim>\<open>process_image\<close> once for every file. The state is only
  touched under the lock, so a run is the sequence of the critical sections in the
  order the workers enter them: \<open>process_all\<close> over the files in that order.
\<close>

fun process_all ::
  "(path \<Rightarrow> nat list option) \<Rightarrow> (string \<Rightarrow> string) \<Rightarrow> detector \<Rightarrow> path list \<Rightarrow> detector" where
  "process_all load_pixels md5 st [] = st"
| "process_all load_pixels md5 st (p # ps) =
     process_all load_pixels md5 (process_image load_pixels md5 st p) ps"

text \<open>The files of a run whose fingerprint is \<open>h\<close>, in processing order.\<close>

definition with_hash ::
  "(path \<Rightarrow> nat list option) \<Rightarrow> (string \<Rightarrow> string) \<Rightarrow> path list \<Rightarrow> string \<Rightarrow> path list" where
  "with_hash load_pixels md5 files h =
     filter (\<lambda>f. calculate_image_hash load_pixels md5 f = Some h) files"

text \<open>
  \<^verbatim>\<open>detect_duplicates\<close>, after the scan: \<open>image_files\<close> is the scanner's list, given
  in the order in which the workers enter the lock. With no file the function
  returns at once.
\<close>

definition detect_duplicates ::
  "(path \<Rightarrow> nat list option) \<Rightarrow> (string \<Rightarrow> string) \<Rightarrow> detector \<Rightarrow> path list \<Rightarrow> detector" where
  "detect_duplicates load_pixels md5 st image_files =
     (let st1 = st\<lparr>total_files := length image_files\<rparr>
      in if total_files st1 = 0 then st1
         else process_all load_pixels md5 st1 image_files)"

text \<open>
  \<^verbatim>\<open>display_results\<close> prints one block for every item of \<^verbatim>\<open>self.duplicates\<close>, numbered
  from 1: the number of files of the group and the files. The model returns what is
  printed for the groups.
\<close>

definition display_results :: "detector \<Rightarrow> (nat \<times> nat \<times> path list) list" where
  "display_results st =
     map (\<lambda>(i, (hash_value, file_list)). (i, length file_list, file_list))
         (zip [1 ..< Suc (length (duplicates st))] (duplicates st))"

text \<open>
  The index is the pair of dictionaries: \<^verbatim>\<open>image_hashes\<close> holds the first file of every
  fingerprint, \<^verbatim>\<open>duplicates\<close> the whole list once a second file has come. The members
  of the group of a fingerprint are read from both.
\<close>

definition group_members :: "detector \<Rightarrow> string \<Rightarrow> path list" where
  "group_members st h =
     (case map_of (duplicates st) h of
        Some file_list \<Rightarrow> file_list
      | None \<Rightarrow> (case map_of (image_hashes st) h of Some p \<Rightarrow> [p] | None \<Rightarrow> []))"

text \<open>A file is hashed when \<^verbatim>\<open>calculate_image_hash\<close> gives a value that \<^verbatim>\<open>if hash_value:\<close> accepts.\<close>

definition hashed :: "(path \<Rightarrow> nat list option) \<Rightarrow> (string \<Rightarrow> string) \<Rightarrow> path \<Rightarrow> bool" where
  "hashed load_pixels md5 f =
     (case calculate_image_hash load_pixels md5 f of None \<Rightarrow> False | Some h \<Rightarrow> h \<noteq> [])"

subsection \<open>A small collection for the concrete instances\<close>

text \<open>
  Four readable images, three of them with the same thumbnail, and files that PIL
  cannot open. The digest of the instances is the identity: it tells apart whatever
  MD5 tells apart.
\<close>

definition demo_pixels :: "path \<Rightarrow> nat list option" where
  "demo_pixels p =
     (if p = ''pics/a.jpg'' \<or> p = ''pics/b.jpg'' \<or> p = ''pics/gone.jpg'' then Some [1, 2]
      else if p = ''pics/c.jpg'' then Some [7]
      else None)"

definition demo_md5 :: "string \<Rightarrow> string" where
  "demo_md5 s = s"

subsection \<open>Paths (posixpath)\<close>

text \<open>\<^verbatim>\<open>str.rfind\<close> for one character: the last index where it stands, or -1.\<close>

fun rfind_from :: "char \<Rightarrow> string \<Rightarrow> int \<Rightarrow> int \<Rightarrow> int" where
  "rfind_from c [] i found = found"
| "rfind_from c (x # xs) i found = rfind_from c xs (i + 1) (if x = c then i else found)"

definition rfind :: "char \<Rightarrow> string \<Rightarrow> int" where
  "rfind c s = rfind_from c s 0 (- 1)"

text \<open>
  \<^verbatim>\<open>os.path.basename\<close>, \<^verbatim>\<open>os.path.join\<close> (of two components) and \<^verbatim>\<open>os.path.splitext\<close> as
  \<^verbatim>\<open>posixpath\<close> defines them: the separator is the slash; the extension starts at the
  last dot of the last component, unless only dots stand before it in that component.
\<close>

definition basename :: "path \<Rightarrow> string" where
  "basename p = drop (nat (rfind CHR ''/'' p + 1)) p"

definition join :: "path \<Rightarrow> string \<Rightarrow> path" where
  "join a b =
     (if b \<noteq> [] \<and> hd b = CHR ''/'' then b
      else if a = [] \<or> last a = CHR ''/'' then a @ b
      else a @ ''/'' @ b)"

definition splitext :: "path \<Rightarrow> string \<times> string" where
  "splitext p =
     (let sepIndex = rfind CHR ''/'' p;
          dotIndex = rfind CHR ''.'' p
      in if dotIndex > sepIndex \<and>
            list_ex (\<lambda>c. c \<noteq> CHR ''.'')
              (take (nat (dotIndex - (sepIndex + 1))) (drop (nat (sepIndex + 1)) p))
         then (take (nat dotIndex) p, drop (nat dotIndex) p)
         else (p, []))"

subsection \<open>The decimal form of a number determines it\<close>

lemma digit_char_inj:
  assumes "a < 10" and "b < 10" and "digit_char a = digit_char b"
  shows "a = b"
proof -
  have d: "distinct ''0123456789''" by simp
  have l: "length ''0123456789'' = 10" by simp
  from assms show ?thesis
    unfolding digit_char_def
    using nth_eq_iff_index_eq [OF d, of a b] l by simp
qed

lemma str_nat_nonempty: "str_nat n \<noteq> []"
  by (subst str_nat.simps) simp

lemma length_str_nat_one: "length (str_nat n) = 1 \<longleftrightarrow> n < 10"
  by (subst str_nat.simps) (simp add: str_nat_nonempty)

lemma str_nat_inj: "str_nat n = str_nat m \<Longrightarrow> n = m"
proof (induction n arbitrary: m rule: str_nat.induct)
  case (1 n)
  show ?case
  proof (cases "n < 10")
    case True
    with "1.prems" have m: "m < 10"
      using length_str_nat_one [of n] length_str_nat_one [of m] by simp
    from True m "1.prems" have "digit_char n = digit_char m"
      by (simp add: str_nat.simps [of n] str_nat.simps [of m])
    with True m show ?thesis by (rule digit_char_inj)
  next
    case False
    with "1.prems" have m: "\<not> m < 10"
      using length_str_nat_one [of n] length_str_nat_one [of m] by simp
    from False m "1.prems"
    have eq: "str_nat (n div 10) @ [digit_char (n mod 10)] = str_nat (m div 10) @ [digit_char (m mod 10)]"
      by (simp add: str_nat.simps [of n] str_nat.simps [of m])
    then have "str_nat (n div 10) = str_nat (m div 10)" by simp
    with False have q: "n div 10 = m div 10" by (rule "1.IH")
    from eq have "digit_char (n mod 10) = digit_char (m mod 10)" by simp
    then have r: "n mod 10 = m mod 10" by (intro digit_char_inj) simp_all
    from q r show ?thesis by (metis div_mult_mod_eq)
  qed
qed

subsection \<open>The file system\<close>

text \<open>
  The file system is a finite table from paths to entries. An entry is a directory or
  a file with its bytes and its modification time (\<^verbatim>\<open>st_mtime\<close>, a number of seconds);
  \<^verbatim>\<open>st_size\<close> is the number of bytes. What the environment can add to the outcome of a
  call (permission denied, disk full, and so on) is a parameter: for each call, the
  error it raises there, if any.
\<close>

record file_node =
  is_dir :: bool
  content :: string
  node_mtime :: real

type_synonym filesystem = "(path \<times> file_node) list"

record os_faults =
  stat_fault :: "path \<Rightarrow> string option"
  makedirs_fault :: "path \<Rightarrow> string option"
  copy_fault :: "path \<Rightarrow> path \<Rightarrow> string option"
  remove_fault :: "path \<Rightarrow> string option"

definition os_path_exists :: "filesystem \<Rightarrow> path \<Rightarrow> bool" where
  "os_path_exists fs p = (map_of fs p \<noteq> None)"

subsection \<open>The search for a free backup name\<close>

text \<open>
  The name the loop tries for a counter: \<^verbatim>\<open>f"{name}_{counter}{ext}"\<close> with
  \<^verbatim>\<open>name, ext = os.path.splitext(base_backup_path)\<close>.
\<close>

definition suffixed :: "path \<Rightarrow> nat \<Rightarrow> path" where
  "suffixed base_backup_path counter =
     (let (name, ext) = splitext base_backup_path
      in name @ ''_'' @ str_nat counter @ ext)"

lemma suffixed_inj: "suffixed b i = suffixed b j \<Longrightarrow> i = j"
  by (auto simp: suffixed_def split: prod.splits dest: str_nat_inj)

text \<open>The counters from \<open>c\<close> on whose name exists: finitely many, since names differ.\<close>

definition taken_from :: "filesystem \<Rightarrow> path \<Rightarrow> nat \<Rightarrow> nat set" where
  "taken_from fs b c = {k. c \<le> k \<and> os_path_exists fs (suffixed b k)}"

lemma finite_taken_from: "finite (taken_from fs b c)"
proof -
  have "taken_from fs b c \<subseteq> suffixed b -` (fst ` set fs)"
    by (force simp: taken_from_def os_path_exists_def dest!: map_of_SomeD)
  moreover have "finite (suffixed b -` (fst ` set fs))"
    by (rule finite_vimageI) (auto simp: inj_on_def dest: suffixed_inj)
  ultimately show ?thesis by (rule finite_subset)
qed

text \<open>
  The loop \<^verbatim>\<open>while os.path.exists(backup_path)\<close> with its two variables; it returns
  them as they are when the loop ends. It ends because every round either uses up one
  of the finitely many existing names or finds a free one.
\<close>

function backup_loop :: "filesystem \<Rightarrow> path \<Rightarrow> path \<Rightarrow> nat \<Rightarrow> path \<times> nat" where
  "backup_loop fs base_backup_path backup_path counter =
     (if os_path_exists fs backup_path
      then backup_loop fs base_backup_path (suffixed base_backup_path counter) (counter + 1)
      else (backup_path, counter))"
  by pat_completeness auto
termination
proof (relation "measure (\<lambda>(fs, b, p, c).
          2 * card (taken_from fs b c) + (if os_path_exists fs p then 1 else 0))")
  show "wf (measure (\<lambda>(fs, b, p, c).
          2 * card (taken_from fs b c) + (if os_path_exists fs p then 1 else 0)))"
    by simp
next
  fix fs :: filesystem and b p :: path and c :: nat
  assume ex: "os_path_exists fs p"
  show "((fs, b, suffixed b c, c + 1), (fs, b, p, c))
        \<in> measure (\<lambda>(fs, b, p, c).
          2 * card (taken_from fs b c) + (if os_path_exists fs p then 1 else 0))"
  proof (cases "os_path_exists fs (suffixed b c)")
    case True
    have "taken_from fs b c = insert c (taken_from fs b (c + 1))"
      using True by (auto simp: taken_from_def le_Suc_eq Suc_le_eq dest: le_neq_implies_less)
    moreover have "c \<notin> taken_from fs b (c + 1)"
      by (simp add: taken_from_def)
    ultimately have "card (taken_from fs b c) = Suc (card (taken_from fs b (c + 1)))"
      by (simp add: finite_taken_from)
    with True ex show ?thesis by simp
  next
    case False
    have "taken_from fs b (c + 1) \<subseteq> taken_from fs b c"
      by (auto simp: taken_from_def)
    then have "card (taken_from fs b (c + 1)) \<le> card (taken_from fs b c)"
      by (rule card_mono [OF finite_taken_from])
    with False ex show ?thesis by simp
  qed
qed

declare backup_loop.simps [simp del]


subsection \<open>File information and the choice of the file to keep\<close>

text \<open>\<^verbatim>\<open>os.stat\<close>: size and modification time, or the error raised.\<close>

definition os_stat :: "os_faults \<Rightarrow> filesystem \<Rightarrow> path \<Rightarrow> string + (nat \<times> real)" where
  "os_stat env fs p =
     (case stat_fault env p of
        Some e \<Rightarrow> Inl e
      | None \<Rightarrow>
          (case map_of fs p of
             None \<Rightarrow> Inl ''[Errno 2] No such file or directory''
           | Some nd \<Rightarrow> Inr (length (content nd), node_mtime nd)))"

text \<open>The dictionary that \<^verbatim>\<open>get_file_info\<close> returns; \<open>None\<close> when \<^verbatim>\<open>os.stat\<close> raises.\<close>

record file_info =
  info_path :: path
  info_size :: nat
  info_mtime :: real
  info_name :: string

definition get_file_info :: "os_faults \<Rightarrow> filesystem \<Rightarrow> path \<Rightarrow> file_info option" where
  "get_file_info env fs file_path =
     (case os_stat env fs file_path of
        Inl e \<Rightarrow> None
      | Inr (st_size, st_mtime) \<Rightarrow>
          Some \<lparr>info_path = file_path, info_size = st_size, info_mtime = st_mtime,
                info_name = basename file_path\<rparr>)"

text \<open>
  Python's \<^verbatim>\<open>max(xs, key=f)\<close> and \<^verbatim>\<open>min(xs, key=f)\<close> scan from the left and replace
  the current choice only by a strictly better element; on an empty list they raise
  \<^verbatim>\<open>ValueError\<close>.
\<close>

fun max_scan :: "('a \<Rightarrow> 'k::linorder) \<Rightarrow> 'a \<Rightarrow> 'a list \<Rightarrow> 'a" where
  "max_scan key best [] = best"
| "max_scan key best (x # xs) = max_scan key (if key best < key x then x else best) xs"

fun min_scan :: "('a \<Rightarrow> 'k::linorder) \<Rightarrow> 'a \<Rightarrow> 'a list \<Rightarrow> 'a" where
  "min_scan key best [] = best"
| "min_scan key best (x # xs) = min_scan key (if key x < key best then x else best) xs"

definition py_max :: "('a \<Rightarrow> 'k::linorder) \<Rightarrow> 'a list \<Rightarrow> 'a option" where
  "py_max key xs = (case xs of [] \<Rightarrow> None | x # rest \<Rightarrow> Some (max_scan key x rest))"

definition py_min :: "('a \<Rightarrow> 'k::linorder) \<Rightarrow> 'a list \<Rightarrow> 'a option" where
  "py_min key xs = (case xs of [] \<Rightarrow> None | x # rest \<Rightarrow> Some (min_scan key x rest))"

text \<open>
  \<^verbatim>\<open>manual_file_selection\<close> asks until the answer is a number between 1 and the number
  of files. The answers typed by the user are a list, \<open>None\<close> for a line that is not
  a number (\<^verbatim>\<open>ValueError\<close>, asked again); when the input ends \<^verbatim>\<open>input\<close> raises
  \<^verbatim>\<open>EOFError\<close>, which nothing catches.
\<close>

fun manual_file_selection ::
  "file_info list \<Rightarrow> int option list \<Rightarrow> (file_info \<times> int option list) option" where
  "manual_file_selection file_infos [] = None"
| "manual_file_selection file_infos (None # answers) = manual_file_selection file_infos answers"
| "manual_file_selection file_infos (Some choice # answers) =
     (if 1 \<le> choice \<and> choice \<le> int (length file_infos)
      then Some (file_infos ! nat (choice - 1), answers)
      else manual_file_selection file_infos answers)"

text \<open>
  The choice of \<^verbatim>\<open>keep_file\<close> by the strategy, together with the answers that are left
  for the next group.
\<close>

definition select_keeper ::
  "string \<Rightarrow> file_info list \<Rightarrow> int option list \<Rightarrow> string + (file_info \<times> int option list)" where
  "select_keeper strategy file_infos answers =
     (if strategy = ''newest'' then
        (case py_max info_mtime file_infos of None \<Rightarrow> Inl ''ValueError'' | Some k \<Rightarrow> Inr (k, answers))
      else if strategy = ''oldest'' then
        (case py_min info_mtime file_infos of None \<Rightarrow> Inl ''ValueError'' | Some k \<Rightarrow> Inr (k, answers))
      else if strategy = ''largest'' then
        (case py_max info_size file_infos of None \<Rightarrow> Inl ''ValueError'' | Some k \<Rightarrow> Inr (k, answers))
      else if strategy = ''smallest'' then
        (case py_min info_size file_infos of None \<Rightarrow> Inl ''ValueError'' | Some k \<Rightarrow> Inr (k, answers))
      else
        (case manual_file_selection file_infos answers of
           None \<Rightarrow> Inl ''EOFError'' | Some r \<Rightarrow> Inr r))"

text \<open>
  The body of the loop of \<^verbatim>\<open>choose_files_to_keep\<close> for one group: what it appends to
  \<^verbatim>\<open>files_to_keep\<close> and to \<^verbatim>\<open>files_to_delete\<close>, and the answers left.
\<close>

definition choose_for_group ::
  "os_faults \<Rightarrow> filesystem \<Rightarrow> string \<Rightarrow> path list \<Rightarrow> int option list
     \<Rightarrow> string + ((path list \<times> path list) \<times> int option list)" where
  "choose_for_group env fs strategy file_list answers =
     (if length file_list \<le> 1 then Inr (([], []), answers)
      else
        let file_infos = List.map_filter (get_file_info env fs) file_list
        in if file_infos = [] then Inr (([], []), answers)
           else
             (case select_keeper strategy file_infos answers of
                Inl e \<Rightarrow> Inl e
              | Inr (keep_file, answers') \<Rightarrow>
                  Inr (([info_path keep_file],
                        map info_path
                          (filter (\<lambda>info. info_path info \<noteq> info_path keep_file) file_infos)),
                       answers')))"



subsection \<open>Backup and deletion\<close>

text \<open>
  \<^verbatim>\<open>shutil.copy2(src, dst)\<close> copies bytes and modification time; when \<^verbatim>\<open>dst\<close> is a
  directory the copy goes into it under the name of the source. \<^verbatim>\<open>os.remove\<close> removes
  a file, not a directory. \<^verbatim>\<open>os.makedirs(d, exist_ok=True)\<close> leaves an existing
  directory alone and raises when \<open>d\<close> is a file. A call that raises leaves the table
  as it was.
\<close>

definition shutil_copy2 :: "os_faults \<Rightarrow> filesystem \<Rightarrow> path \<Rightarrow> path \<Rightarrow> string + filesystem" where
  "shutil_copy2 env fs src dst =
     (case copy_fault env src dst of
        Some e \<Rightarrow> Inl e
      | None \<Rightarrow>
          (case map_of fs src of
             None \<Rightarrow> Inl ''[Errno 2] No such file or directory''
           | Some nd \<Rightarrow>
               if is_dir nd then Inl ''[Errno 21] Is a directory''
               else
                 let target = (case map_of fs dst of
                                 None \<Rightarrow> dst
                               | Some d \<Rightarrow> if is_dir d then join dst (basename src) else dst)
                 in if target = src then Inl ''are the same file''
                    else (case map_of fs target of
                            None \<Rightarrow> Inr (AList.update target nd fs)
                          | Some t \<Rightarrow> if is_dir t then Inl ''[Errno 21] Is a directory''
                                      else Inr (AList.update target nd fs))))"

definition os_remove :: "os_faults \<Rightarrow> filesystem \<Rightarrow> path \<Rightarrow> string + filesystem" where
  "os_remove env fs p =
     (case remove_fault env p of
        Some e \<Rightarrow> Inl e
      | None \<Rightarrow>
          (case map_of fs p of
             None \<Rightarrow> Inl ''[Errno 2] No such file or directory''
           | Some nd \<Rightarrow>
               if is_dir nd then Inl ''[Errno 21] Is a directory''
               else Inr (AList.delete p fs)))"

definition os_makedirs :: "os_faults \<Rightarrow> filesystem \<Rightarrow> path \<Rightarrow> string + filesystem" where
  "os_makedirs env fs d =
     (case makedirs_fault env d of
        Some e \<Rightarrow> Inl e
      | None \<Rightarrow>
          (case map_of fs d of
             None \<Rightarrow> Inr (AList.update d \<lparr>is_dir = True, content = [], node_mtime = 0\<rparr> fs)
           | Some nd \<Rightarrow> if is_dir nd then Inr fs else Inl ''[Errno 17] File exists''))"

text \<open>\<^verbatim>\<open>if backup_dir:\<close> is false for \<^verbatim>\<open>None\<close> and for the empty string.\<close>

definition backup_requested :: "string option \<Rightarrow> bool" where
  "backup_requested backup_dir = (case backup_dir of None \<Rightarrow> False | Some d \<Rightarrow> d \<noteq> [])"

text \<open>The path the suffix search of \<^verbatim>\<open>delete_duplicate_files\<close> ends with, for a file.\<close>

definition backup_path_for :: "filesystem \<Rightarrow> string \<Rightarrow> path \<Rightarrow> path" where
  "backup_path_for fs backup_dir file_path =
     (let backup_path = join backup_dir (basename file_path)
      in fst (backup_loop fs backup_path backup_path 1))"

text \<open>
  One round of the loop of \<^verbatim>\<open>delete_duplicate_files\<close>: the state is the file system
  and the two result lists. An exception of the copy or of the removal ends the round
  in the \<^verbatim>\<open>except\<close> branch.
\<close>

definition delete_step ::
  "os_faults \<Rightarrow> string option \<Rightarrow> filesystem \<times> path list \<times> (path \<times> string) list \<Rightarrow> path
     \<Rightarrow> filesystem \<times> path list \<times> (path \<times> string) list" where
  "delete_step env backup_dir state file_path =
     (case state of (fs, deleted_files, failed_deletions) \<Rightarrow>
        (case (if backup_requested backup_dir
               then shutil_copy2 env fs file_path (backup_path_for fs (the backup_dir) file_path)
               else Inr fs) of
           Inl e \<Rightarrow> (fs, deleted_files, failed_deletions @ [(file_path, e)])
         | Inr fs1 \<Rightarrow>
             (case os_remove env fs1 file_path of
                Inl e \<Rightarrow> (fs1, deleted_files, failed_deletions @ [(file_path, e)])
              | Inr fs2 \<Rightarrow> (fs2, deleted_files @ [file_path], failed_deletions))))"

fun delete_loop ::
  "os_faults \<Rightarrow> string option \<Rightarrow> filesystem \<times> path list \<times> (path \<times> string) list \<Rightarrow> path list
     \<Rightarrow> filesystem \<times> path list \<times> (path \<times> string) list" where
  "delete_loop env backup_dir state [] = state"
| "delete_loop env backup_dir state (file_path # rest) =
     delete_loop env backup_dir (delete_step env backup_dir state file_path) rest"

text \<open>
  \<^verbatim>\<open>delete_duplicate_files\<close>: \<^verbatim>\<open>os.makedirs\<close> stands before the loop and outside any
  \<^verbatim>\<open>try\<close>, so its error is the error of the whole call.
\<close>

definition delete_duplicate_files ::
  "os_faults \<Rightarrow> filesystem \<Rightarrow> path list \<Rightarrow> string option
     \<Rightarrow> string + (filesystem \<times> path list \<times> (path \<times> string) list)" where
  "delete_duplicate_files env fs files_to_delete backup_dir =
     (case (if backup_requested backup_dir then os_makedirs env fs (the backup_dir) else Inr fs) of
        Inl e \<Rightarrow> Inl e
      | Inr fs0 \<Rightarrow> Inr (delete_loop env backup_dir (fs0, [], []) files_to_delete))"

subsection \<open>A small file system for the concrete instances\<close>

definition demo_fs :: filesystem where
  "demo_fs =
     [(''pics/a.jpg'', \<lparr>is_dir = False, content = ''AAAA'', node_mtime = 10\<rparr>),
      (''pics/b.jpg'', \<lparr>is_dir = False, content = ''AAAA'', node_mtime = 20\<rparr>),
      (''pics/c.jpg'', \<lparr>is_dir = False, content = ''CC'', node_mtime = 20\<rparr>),
      (''bak'', \<lparr>is_dir = True, content = [], node_mtime = 5\<rparr>),
      (''bak/b.jpg'', \<lparr>is_dir = False, content = ''old'', node_mtime = 1\<rparr>),
      (''bak/b_1.jpg'', \<lparr>is_dir = False, content = ''older'', node_mtime = 1\<rparr>)]"

text \<open>Environments: no failure at all, and a copy that fails for one file.\<close>

definition no_faults :: os_faults where
  "no_faults = \<lparr>stat_fault = (\<lambda>p. None), makedirs_fault = (\<lambda>p. None),
                copy_fault = (\<lambda>src dst. None), remove_fault = (\<lambda>p. None)\<rparr>"

definition copy_of_b_fails :: os_faults where
  "copy_of_b_fails =
     no_faults\<lparr>copy_fault :=
       (\<lambda>src dst. if src = ''pics/b.jpg'' then Some ''[Errno 28] No space left on device'' else None)\<rparr>"

subsection \<open>The scanner\<close>












subsection \<open>The duplicate check of the image sorter\<close>

text \<open>
  The duplicate check of \<^verbatim>\<open>AdvancedImageSorter.process_image\<close> (the block under
  \<^verbatim>\<open>if hash_value and self.config["processing"]["check_duplicates"]\<close>): the new
  dictionary, and whether the file was reported as a duplicate.
\<close>

definition check_duplicate ::
  "bool \<Rightarrow> (string \<times> string list) list \<Rightarrow> string \<Rightarrow> string
     \<Rightarrow> (string \<times> string list) list \<times> bool" where
  "check_duplicate check_duplicates dups hash_value filename =
     (if hash_value \<noteq> [] \<and> check_duplicates then
        (case map_of dups hash_value of
           Some names \<Rightarrow> (AList.update hash_value (names @ [filename]) dups, True)
         | None \<Rightarrow> (AList.update hash_value [filename] dups, False))
      else (dups, False))"

text \<open>
  Two files for the concrete instances: they agree on their first 8192 bytes and
  differ in the next one, and their thumbnails differ in the first two grey levels.
\<close>

definition demo_read :: "path \<Rightarrow> string option" where
  "demo_read p =
     (if p = ''big1.jpg'' then Some (replicate 8192 CHR ''x'' @ ''A'')
      else if p = ''big2.jpg'' then Some (replicate 8192 CHR ''x'' @ ''B'')
      else None)"

definition demo_thumbs :: "path \<Rightarrow> nat list option" where
  "demo_thumbs p =
     (if p = ''big1.jpg'' then Some (1 # 11 # replicate 62 0)
      else if p = ''big2.jpg'' then Some (11 # 1 # replicate 62 0)
      else None)"

subsection \<open>The worker pool\<close>

text \<open>
  \<^verbatim>\<open>detect_duplicates\<close> submits \<^verbatim>\<open>process_image\<close> once for every file; the threads of the
  pool run these calls in any interleaving. A call is followed statement by
  statement: the fingerprint is computed outside the lock; \<^verbatim>\<open>with self.lock\<close> is
  entered only when no other call holds the lock; the statements of the block are
  single steps, between which the other calls may run; leaving the block releases the
  lock. The position of a call:
\<close>

datatype position =
    W_start
  | W_hashed "string option"
  | L_check_hashes string
  | L_check_dups string
  | L_append_first string
  | L_append_path string
  | L_store_first string
  | L_count
  | L_release
  | W_done

record pool =
  shared :: detector
  lock :: "nat option"
  positions :: "position list"

definition initial_pool :: "detector \<Rightarrow> path list \<Rightarrow> pool" where
  "initial_pool st image_files =
     \<lparr>shared = st, lock = None, positions = map (\<lambda>p. W_start) image_files\<rparr>"

text \<open>
  A statement of the block under the lock, run by the call for \<open>image_path\<close>: the new
  state and the next position. (\<^verbatim>\<open>self.image_hashes[hash_value]\<close> raises \<^verbatim>\<open>KeyError\<close> for
  a missing key.)
\<close>

definition critical_step :: "path \<Rightarrow> detector \<Rightarrow> position \<Rightarrow> (detector \<times> position) option" where
  "critical_step image_path st pos =
     (case pos of
        L_check_hashes hash_value \<Rightarrow>
          Some (st, if map_of (image_hashes st) hash_value \<noteq> None
                    then L_check_dups hash_value else L_store_first hash_value)
      | L_check_dups hash_value \<Rightarrow>
          Some (st, if map_of (duplicates st) hash_value = None
                    then L_append_first hash_value else L_append_path hash_value)
      | L_append_first hash_value \<Rightarrow>
          (case map_of (image_hashes st) hash_value of
             None \<Rightarrow> None
           | Some first_path \<Rightarrow>
               Some (st\<lparr>duplicates := dd_append (duplicates st) hash_value first_path\<rparr>,
                     L_append_path hash_value))
      | L_append_path hash_value \<Rightarrow>
          Some (st\<lparr>duplicates := dd_append (duplicates st) hash_value image_path\<rparr>, L_count)
      | L_store_first hash_value \<Rightarrow>
          Some (st\<lparr>image_hashes := AList.update hash_value image_path (image_hashes st)\<rparr>, L_count)
      | L_count \<Rightarrow> Some (st\<lparr>processed_count := processed_count st + 1\<rparr>, L_release)
      | _ \<Rightarrow> None)"

text \<open>
  The next step of the call for the file number \<open>i\<close>; \<open>None\<close> when that call cannot
  move: it has returned, or it waits for the lock.
\<close>

definition step_worker ::
  "(path \<Rightarrow> nat list option) \<Rightarrow> (string \<Rightarrow> string) \<Rightarrow> path list \<Rightarrow> pool \<Rightarrow> nat \<Rightarrow> pool option" where
  "step_worker load_pixels md5 image_files pl i =
     (if length image_files \<le> i \<or> length (positions pl) \<le> i then None
      else
        let image_path = image_files ! i;
            move = (\<lambda>pos. (positions pl)[i := pos])
        in case positions pl ! i of
             W_start \<Rightarrow>
               Some (pl\<lparr>positions := move (W_hashed (calculate_image_hash load_pixels md5 image_path))\<rparr>)
           | W_hashed None \<Rightarrow> Some (pl\<lparr>positions := move W_done\<rparr>)
           | W_hashed (Some hash_value) \<Rightarrow>
               if hash_value = [] then Some (pl\<lparr>positions := move W_done\<rparr>)
               else (case lock pl of
                       None \<Rightarrow> Some (pl\<lparr>lock := Some i, positions := move (L_check_hashes hash_value)\<rparr>)
                     | Some holder \<Rightarrow> None)
           | L_release \<Rightarrow> Some (pl\<lparr>lock := None, positions := move W_done\<rparr>)
           | W_done \<Rightarrow> None
           | pos \<Rightarrow>
               (case critical_step image_path (shared pl) pos of
                  None \<Rightarrow> None
                | Some (st', pos') \<Rightarrow> Some (pl\<lparr>shared := st', positions := move pos'\<rparr>)))"

text \<open>A schedule names, step after step, the call that moves.\<close>

fun run_schedule ::
  "(path \<Rightarrow> nat list option) \<Rightarrow> (string \<Rightarrow> string) \<Rightarrow> path list \<Rightarrow> pool \<Rightarrow> nat list \<Rightarrow> pool option" where
  "run_schedule load_pixels md5 image_files pl [] = Some pl"
| "run_schedule load_pixels md5 image_files pl (i # schedule) =
     (case step_worker load_pixels md5 image_files pl i of
        None \<Rightarrow> None
      | Some pl' \<Rightarrow> run_schedule load_pixels md5 image_files pl' schedule)"

definition all_done :: "pool \<Rightarrow> bool" where
  "all_done pl = list_all (\<lambda>pos. pos = W_done) (positions pl)"


subsection \<open>The invariant of the pool\<close>

fun in_lock :: "position \<Rightarrow> bool" where
  "in_lock W_start = False"
| "in_lock (W_hashed x) = False"
| "in_lock W_done = False"
| "in_lock pos = True"

text \<open>
  What the shared state is while a call is under the lock, in terms of the state \<open>S\<close>
  in which it entered.
\<close>

fun lock_view ::
  "(path \<Rightarrow> nat list option) \<Rightarrow> (string \<Rightarrow> string) \<Rightarrow> detector \<Rightarrow> path \<Rightarrow> position \<Rightarrow> detector \<Rightarrow> bool" where
  "lock_view lp md5 S p (L_check_hashes h) sh =
     (sh = S \<and> calculate_image_hash lp md5 p = Some h \<and> h \<noteq> [])"
| "lock_view lp md5 S p (L_check_dups h) sh =
     (sh = S \<and> calculate_image_hash lp md5 p = Some h \<and> h \<noteq> []
      \<and> map_of (image_hashes S) h \<noteq> None)"
| "lock_view lp md5 S p (L_append_first h) sh =
     (sh = S \<and> calculate_image_hash lp md5 p = Some h \<and> h \<noteq> []
      \<and> map_of (image_hashes S) h \<noteq> None \<and> map_of (duplicates S) h = None)"
| "lock_view lp md5 S p (L_append_path h) sh =
     (calculate_image_hash lp md5 p = Some h \<and> h \<noteq> []
      \<and> (\<exists>first_path. map_of (image_hashes S) h = Some first_path
            \<and> sh = S\<lparr>duplicates := (if map_of (duplicates S) h = None
                                      then dd_append (duplicates S) h first_path
                                      else duplicates S)\<rparr>))"
| "lock_view lp md5 S p (L_store_first h) sh =
     (sh = S \<and> calculate_image_hash lp md5 p = Some h \<and> h \<noteq> []
      \<and> map_of (image_hashes S) h = None)"
| "lock_view lp md5 S p L_count sh =
     (sh\<lparr>processed_count := processed_count sh + 1\<rparr> = process_image lp md5 S p)"
| "lock_view lp md5 S p L_release sh = (sh = process_image lp md5 S p)"
| "lock_view lp md5 S p pos sh = False"

definition pool_inv ::
  "(path \<Rightarrow> nat list option) \<Rightarrow> (string \<Rightarrow> string) \<Rightarrow> detector \<Rightarrow> path list \<Rightarrow> pool \<Rightarrow> bool" where
  "pool_inv lp md5 st0 files pl \<longleftrightarrow>
     length (positions pl) = length files
     \<and> (\<forall>i < length files. \<forall>x. positions pl ! i = W_hashed x \<longrightarrow>
           x = calculate_image_hash lp md5 (files ! i))
     \<and> (\<exists>done. distinct done
           \<and> set done = {i. i < length files \<and> positions pl ! i = W_done}
           \<and> (case lock pl of
                 None \<Rightarrow>
                   shared pl = process_all lp md5 st0 (map ((!) files) done)
                   \<and> (\<forall>i < length files. \<not> in_lock (positions pl ! i))
               | Some k \<Rightarrow>
                   k < length files
                   \<and> (\<forall>i < length files. i \<noteq> k \<longrightarrow> \<not> in_lock (positions pl ! i))
                   \<and> lock_view lp md5 (process_all lp md5 st0 (map ((!) files) done))
                        (files ! k) (positions pl ! k) (shared pl)))"

text \<open>
  Two schedules for two files with the same fingerprint: in the first the second call
  computes its fingerprint while the first call is under the lock and enters after
  it; in the second the calls enter in the other order.
\<close>

definition schedule_a_first :: "nat list" where
  "schedule_a_first = [0, 0, 0, 1, 0, 0, 0, 1, 1, 1, 1, 1, 1, 1]"

definition schedule_b_first :: "nat list" where
  "schedule_b_first = [1, 0, 1, 1, 1, 1, 1, 0, 0, 0, 0, 0, 0, 0]"

subsection \<open>The index after a run\<close>

lemma process_all_append:
  "process_all lp md5 st (xs @ ys) = process_all lp md5 (process_all lp md5 st xs) ys"
  by (induction xs arbitrary: st) simp_all

lemma process_all_snoc:
  "process_all lp md5 st (xs @ [x]) = process_image lp md5 (process_all lp md5 st xs) x"
  by (simp add: process_all_append)

lemma map_of_dd_append:
  "map_of (dd_append d k x) k' =
     (if k' = k then Some ((case map_of d k of None \<Rightarrow> [] | Some l \<Rightarrow> l) @ [x]) else map_of d k')"
  by (simp add: dd_append_def update_conv')

lemma index_after_run:
  assumes "h \<noteq> []" and "image_hashes st0 = []" and "duplicates st0 = []"
  shows "map_of (image_hashes (process_all lp md5 st0 files)) h =
           (case with_hash lp md5 files h of [] \<Rightarrow> None | f # _ \<Rightarrow> Some f)
         \<and> map_of (duplicates (process_all lp md5 st0 files)) h =
           (if 2 \<le> length (with_hash lp md5 files h) then Some (with_hash lp md5 files h) else None)"
proof (induction files rule: rev_induct)
  case Nil
  show ?case using assms by (simp add: with_hash_def)
next
  case (snoc x xs)
  show ?case
  proof (cases "calculate_image_hash lp md5 x")
    case None
    then show ?thesis using snoc
      by (simp add: process_all_snoc process_image_def with_hash_def)
  next
    case (Some hx)
    show ?thesis
    proof (cases "hx = []")
      case True
      then show ?thesis using snoc Some assms(1)
        by (simp add: process_all_snoc process_image_def with_hash_def)
    next
      case False
      show ?thesis
      proof (cases "hx = h")
        case True
        then show ?thesis using snoc Some assms(1)
          by (cases "with_hash lp md5 xs h")
             (auto simp: process_all_snoc process_image_def with_hash_def Let_def
                         map_of_dd_append update_conv' Suc_le_eq split: option.splits list.splits)
      next
        case neq: False
        then show ?thesis using snoc Some False
          by (auto simp: process_all_snoc process_image_def with_hash_def Let_def
                         map_of_dd_append update_conv' split: option.splits)
      qed
    qed
  qed
qed

lemma empty_key_never_stored:
  assumes "image_hashes st0 = []" and "duplicates st0 = []"
  shows "map_of (image_hashes (process_all lp md5 st0 files)) [] = None
         \<and> map_of (duplicates (process_all lp md5 st0 files)) [] = None"
proof (induction files rule: rev_induct)
  case Nil
  show ?case using assms by simp
next
  case (snoc x xs)
  then show ?case
    by (auto simp: process_all_snoc process_image_def Let_def map_of_dd_append update_conv'
             split: option.splits)
qed

lemma duplicates_keys_distinct:
  assumes "duplicates st0 = []"
  shows "distinct (map fst (duplicates (process_all lp md5 st0 files)))"
proof (induction files rule: rev_induct)
  case Nil
  show ?case using assms by simp
next
  case (snoc x xs)
  then show ?case
    by (auto simp: process_all_snoc process_image_def Let_def dd_append_def distinct_update
             split: option.splits)
qed

lemma duplicates_lookup:
  assumes "image_hashes st0 = []" and "duplicates st0 = []"
  shows "map_of (duplicates (process_all lp md5 st0 files)) h =
           (if h \<noteq> [] \<and> 2 \<le> length (with_hash lp md5 files h)
            then Some (with_hash lp md5 files h) else None)"
  using index_after_run [OF _ assms, of h lp md5 files]
        empty_key_never_stored [OF assms, of lp md5 files]
  by (cases "h = []") simp_all

lemma image_hashes_lookup:
  assumes "image_hashes st0 = []" and "duplicates st0 = []"
  shows "map_of (image_hashes (process_all lp md5 st0 files)) h =
           (if h = [] then None
            else (case with_hash lp md5 files h of [] \<Rightarrow> None | f # _ \<Rightarrow> Some f))"
  using index_after_run [OF _ assms, of h lp md5 files]
        empty_key_never_stored [OF assms, of lp md5 files]
  by (cases "h = []") simp_all

lemma duplicates_entries:
  assumes "image_hashes st0 = []" and "duplicates st0 = []"
  shows "(h, l) \<in> set (duplicates (process_all lp md5 st0 files)) \<longleftrightarrow>
           h \<noteq> [] \<and> 2 \<le> length (with_hash lp md5 files h) \<and> l = with_hash lp md5 files h"
proof -
  have "(h, l) \<in> set (duplicates (process_all lp md5 st0 files)) \<longleftrightarrow>
        map_of (duplicates (process_all lp md5 st0 files)) h = Some l"
    using duplicates_keys_distinct [OF assms(2), of lp md5 files] by simp
  then show ?thesis
    by (auto simp: duplicates_lookup [OF assms])
qed

lemma detect_duplicates_run:
  "detect_duplicates lp md5 st files =
     process_all lp md5 (st\<lparr>total_files := length files\<rparr>) files"
  by (cases files) (simp_all add: detect_duplicates_def Let_def)

lemma with_hash_snoc:
  "with_hash lp md5 (xs @ [x]) h =
     with_hash lp md5 xs h @ (if calculate_image_hash lp md5 x = Some h then [x] else [])"
  by (simp add: with_hash_def)

lemma group_members_run:
  assumes "fresh_index st0"
  shows "group_members (process_all lp md5 st0 files) h =
           (if h = [] then [] else with_hash lp md5 files h)"
proof -
  from assms have e: "image_hashes st0 = []" "duplicates st0 = []"
    by (simp_all add: fresh_index_def)
  show ?thesis
    by (cases "with_hash lp md5 files h")
       (auto simp: group_members_def duplicates_lookup [OF e] image_hashes_lookup [OF e]
                   Suc_le_eq split: list.splits)
qed

lemma process_image_not_hashed:
  "\<not> hashed lp md5 bad \<Longrightarrow> process_image lp md5 st bad = st"
  by (auto simp: hashed_def process_image_def split: option.splits)


lemma reported_lists:
  "map (\<lambda>(i, k, file_list). file_list) (display_results st) = map snd (duplicates st)"
  unfolding display_results_def
  by (rule nth_equalityI) (auto simp: split_beta Suc_le_eq)

subsection \<open>The suffix search and the copy\<close>

lemma splitext_append: "splitext p = (name, ext) \<Longrightarrow> name @ ext = p"
  by (auto simp: splitext_def Let_def split: if_splits)

lemma suffixed_not_base: "suffixed b k \<noteq> b"
proof
  assume eq: "suffixed b k = b"
  obtain name ext where s: "splitext b = (name, ext)" by (cases "splitext b")
  then have "name @ ext = b" by (rule splitext_append)
  with eq s have "length (name @ ''_'' @ str_nat k @ ext) = length (name @ ext)"
    by (simp add: suffixed_def)
  then show False by simp
qed

lemma backup_loop_result:
  "backup_loop fs b p c = (p', c') \<Longrightarrow>
     \<not> os_path_exists fs p' \<and> c \<le> c' \<and>
     (if c' = c then p' = p
      else os_path_exists fs p \<and> p' = suffixed b (c' - 1) \<and>
           (\<forall>k. c \<le> k \<and> k < c' - 1 \<longrightarrow> os_path_exists fs (suffixed b k)))"
proof (induction fs b p c rule: backup_loop.induct)
  case (1 fs b p c)
  show ?case
  proof (cases "os_path_exists fs p")
    case False
    with "1.prems" show ?thesis by (simp add: backup_loop.simps [of fs b p c])
  next
    case True
    with "1.prems" have r: "backup_loop fs b (suffixed b c) (c + 1) = (p', c')"
      by (simp add: backup_loop.simps [of fs b p c])
    note ih = "1.IH" [OF True r]
    from ih have free: "\<not> os_path_exists fs p'" and le: "c + 1 \<le> c'" by simp_all
    have last: "p' = suffixed b (c' - 1)"
      using ih by (cases "c' = c + 1") simp_all
    have below: "\<forall>k. c \<le> k \<and> k < c' - 1 \<longrightarrow> os_path_exists fs (suffixed b k)"
    proof (intro allI impI)
      fix k assume k: "c \<le> k \<and> k < c' - 1"
      then have ne: "c' \<noteq> c + 1" by auto
      show "os_path_exists fs (suffixed b k)"
      proof (cases "k = c")
        case True
        with ih ne show ?thesis by simp
      next
        case False
        with k have "c + 1 \<le> k \<and> k < c' - 1" by auto
        with ih ne show ?thesis by simp
      qed
    qed
    from free le last below True show ?thesis by auto
  qed
qed

lemma tried_paths_bound:
  assumes base: "os_path_exists fs b"
      and tried: "\<forall>k. 1 \<le> k \<and> k < n \<longrightarrow> os_path_exists fs (suffixed b k)"
  shows "n \<le> length fs"
proof -
  let ?S = "insert b (suffixed b ` {1 ..< n})"
  have sub: "?S \<subseteq> fst ` set fs"
    using base tried by (force simp: os_path_exists_def dest!: map_of_SomeD)
  have inj: "inj_on (suffixed b) {1 ..< n}"
    by (auto simp: inj_on_def dest: suffixed_inj)
  have "b \<notin> suffixed b ` {1 ..< n}"
    using suffixed_not_base [of b] by (auto simp: image_iff) metis
  then have "card ?S = Suc (card (suffixed b ` {1 ..< n}))" by simp
  also have "\<dots> = Suc (n - 1)" using card_image [OF inj] by simp
  finally have "n \<le> card ?S" by simp
  also have "\<dots> \<le> card (fst ` set fs)" by (rule card_mono [OF _ sub]) simp
  also have "\<dots> \<le> length fs" by (metis card_image_le card_length le_trans List.finite_set)
  finally show ?thesis .
qed

lemma copy2_to_free_path:
  assumes "\<not> os_path_exists fs dst" and "shutil_copy2 env fs src dst = Inr fs1"
  shows "map_of fs1 = (map_of fs)(dst := map_of fs src)" and "map_of fs src \<noteq> None"
  using assms
  by (auto simp: shutil_copy2_def os_path_exists_def update_conv' Let_def
           split: option.splits if_splits)

subsection \<open>The deletion loop\<close>

lemma delete_loop_append:
  "delete_loop env b st (xs @ ys) = delete_loop env b (delete_loop env b st xs) ys"
  by (induction xs arbitrary: st) simp_all

lemma delete_step_lists:
  assumes "delete_step env b (fs, d, f) p = (fs', d', f')"
  shows "(d' = d @ [p] \<and> f' = f) \<or> (d' = d \<and> (\<exists>e. f' = f @ [(p, e)]))"
  using assms
  by (auto simp: delete_step_def split: sum.splits if_splits)

lemma delete_loop_lists:
  assumes "delete_loop env b (fs, d, f) xs = (fs', d', f')"
  shows "\<exists>dn fn. d' = d @ dn \<and> f' = f @ fn \<and> set dn \<subseteq> set xs \<and> fst ` set fn \<subseteq> set xs
           \<and> (\<forall>P. length (filter P dn) + length (filter (\<lambda>(p, e). P p) fn) = length (filter P xs))"
  using assms
proof (induction xs arbitrary: fs d f)
  case Nil
  then show ?case by simp
next
  case (Cons x xs)
  obtain fs1 d1 f1 where s: "delete_step env b (fs, d, f) x = (fs1, d1, f1)"
    by (cases "delete_step env b (fs, d, f) x") auto
  with Cons.prems have l: "delete_loop env b (fs1, d1, f1) xs = (fs', d', f')" by simp
  from Cons.IH [OF l] obtain dn fn where
    r: "d' = d1 @ dn" "f' = f1 @ fn" "set dn \<subseteq> set xs" "fst ` set fn \<subseteq> set xs"
       "\<forall>P. length (filter P dn) + length (filter (\<lambda>(p, e). P p) fn) = length (filter P xs)"
    by blast
  from delete_step_lists [OF s] show ?case
  proof (elim disjE conjE exE)
    assume "d1 = d @ [x]" "f1 = f"
    with r show ?thesis
      by (intro exI [of _ "x # dn"] exI [of _ fn]) auto
  next
    fix e assume "d1 = d" "f1 = f @ [(x, e)]"
    with r show ?thesis
      by (intro exI [of _ dn] exI [of _ "(x, e) # fn"]) auto
  qed
qed

lemma backup_path_is_free:
  "\<not> os_path_exists fs (backup_path_for fs d p)"
proof -
  obtain bp c where
    "backup_loop fs (join d (basename p)) (join d (basename p)) 1 = (bp, c)"
    by (cases "backup_loop fs (join d (basename p)) (join d (basename p)) 1") auto
  from backup_loop_result [OF this] this show ?thesis
    by (simp add: backup_path_for_def Let_def)
qed

lemma delete_step_keeps_others:
  assumes "delete_step env b (fs, d, f) p = (fs', d', f')" and "q \<noteq> p" and "map_of fs q = Some nd"
  shows "map_of fs' q = Some nd"
proof (cases "backup_requested b")
  case False
  with assms show ?thesis
    by (auto simp: delete_step_def os_remove_def delete_conv' split: sum.splits option.splits if_splits)
next
  case True
  let ?bp = "backup_path_for fs (the b) p"
  have free: "\<not> os_path_exists fs ?bp" by (rule backup_path_is_free)
  with assms(3) have ne: "q \<noteq> ?bp" by (auto simp: os_path_exists_def)
  show ?thesis
  proof (cases "shutil_copy2 env fs p ?bp")
    case (Inl e)
    with True assms show ?thesis by (simp add: delete_step_def)
  next
    case (Inr fs1)
    from copy2_to_free_path(1) [OF free Inr] ne assms(3) have q1: "map_of fs1 q = Some nd"
      by simp
    with Inr True assms(1,2) show ?thesis
      by (auto simp: delete_step_def os_remove_def delete_conv' split: sum.splits option.splits if_splits)
  qed
qed

lemma delete_loop_keeps_others:
  assumes "delete_loop env b (fs, d, f) xs = (fs', d', f')" and "q \<notin> set xs" and "map_of fs q = Some nd"
  shows "map_of fs' q = Some nd"
  using assms
proof (induction xs arbitrary: fs d f)
  case Nil
  then show ?case by simp
next
  case (Cons x xs)
  obtain fs1 d1 f1 where s: "delete_step env b (fs, d, f) x = (fs1, d1, f1)"
    by (cases "delete_step env b (fs, d, f) x") auto
  with Cons.prems have l: "delete_loop env b (fs1, d1, f1) xs = (fs', d', f')" by simp
  from Cons.prems have "q \<noteq> x" "q \<notin> set xs" by auto
  from delete_step_keeps_others [OF s \<open>q \<noteq> x\<close> Cons.prems(3)]
  have "map_of fs1 q = Some nd" .
  from Cons.IH [OF l \<open>q \<notin> set xs\<close> this] show ?case .
qed

lemma deleted_has_backup:
  assumes "backup_requested b"
      and "delete_step env b (fs, d, f) g = (fs', d @ [g], f')"
  shows "\<exists>nd. map_of fs g = Some nd \<and> map_of fs' (backup_path_for fs (the b) g) = Some nd"
proof -
  let ?bp = "backup_path_for fs (the b) g"
  have free: "\<not> os_path_exists fs ?bp" by (rule backup_path_is_free)
  from assms obtain fs1 where cp: "shutil_copy2 env fs g ?bp = Inr fs1"
    and rm: "os_remove env fs1 g = Inr fs'"
    by (auto simp: delete_step_def split: sum.splits)
  from copy2_to_free_path [OF free cp] obtain nd where
    nd: "map_of fs g = Some nd" and m1: "map_of fs1 = (map_of fs)(?bp := map_of fs g)"
    by auto
  from nd free have ne: "?bp \<noteq> g" by (auto simp: os_path_exists_def)
  from rm have "map_of fs' = (map_of fs1)(g := None)"
    by (auto simp: os_remove_def delete_conv' split: option.splits if_splits)
  with m1 ne nd show ?thesis by simp
qed

subsection \<open>What \<^verbatim>\<open>max\<close> and \<^verbatim>\<open>min\<close> return\<close>

lemma max_scan_first_best:
  "\<exists>pre post. best # xs = pre @ max_scan key best xs # post
     \<and> (\<forall>y \<in> set pre. key y < key (max_scan key best xs))
     \<and> (\<forall>y \<in> set post. key y \<le> key (max_scan key best xs))"
proof (induction xs arbitrary: best)
  case Nil
  have "[best] = [] @ max_scan key best [] # []" by simp
  then show ?case by fastforce
next
  case (Cons x xs)
  show ?case
  proof (cases "key best < key x")
    case True
    then have m: "max_scan key best (x # xs) = max_scan key x xs" by simp
    from Cons.IH [of x] obtain pre post where
      d: "x # xs = pre @ max_scan key x xs # post"
      and lo: "\<forall>y \<in> set pre. key y < key (max_scan key x xs)"
      and hi: "\<forall>y \<in> set post. key y \<le> key (max_scan key x xs)"
      by blast
    have "key x \<le> key (max_scan key x xs)"
    proof (cases pre)
      case Nil
      from d [unfolded Nil append_Nil] have "x = max_scan key x xs"
        by (rule list.inject [THEN iffD1, THEN conjunct1])
      then show ?thesis by simp
    next
      case (Cons p ps)
      with d lo show ?thesis by auto
    qed
    with True have bk: "key best < key (max_scan key x xs)" by simp
    have A: "best # x # xs = (best # pre) @ max_scan key x xs # post" using d by simp
    have B: "\<forall>y \<in> set (best # pre). key y < key (max_scan key x xs)" using lo bk by simp
    from A B hi show ?thesis unfolding m by blast
  next
    case False
    then have m: "max_scan key best (x # xs) = max_scan key best xs" by simp
    from Cons.IH [of best] obtain pre post where
      d: "best # xs = pre @ max_scan key best xs # post"
      and lo: "\<forall>y \<in> set pre. key y < key (max_scan key best xs)"
      and hi: "\<forall>y \<in> set post. key y \<le> key (max_scan key best xs)"
      by blast
    show ?thesis
    proof (cases pre)
      case Nil
      note inj = d [unfolded Nil append_Nil, THEN list.inject [THEN iffD1]]
      from inj have b: "best = max_scan key best xs" by (rule conjunct1)
      from inj have p: "xs = post" by (rule conjunct2)
      from False b have xb: "key x \<le> key (max_scan key best xs)" by simp
      have A: "best # x # xs = [] @ max_scan key best xs # (x # post)" using b p by simp
      have B: "\<forall>y \<in> set (x # post). key y \<le> key (max_scan key best xs)" using hi xb by simp
      have C: "\<forall>y \<in> set ([]::'a list). key y < key (max_scan key best xs)" by simp
      from A B C show ?thesis unfolding m by blast
    next
      case (Cons p ps)
      note inj = d [unfolded Cons append_Cons, THEN list.inject [THEN iffD1]]
      from inj have "best = p" by (rule conjunct1)
      then have p: "p = best" by (rule sym)
      from inj have xs: "xs = ps @ max_scan key best xs # post" by (rule conjunct2)
      from lo Cons p have "key best < key (max_scan key best xs)" by simp
      with False have xb: "key x < key (max_scan key best xs)" by simp
      have A: "best # x # xs = (best # x # ps) @ max_scan key best xs # post" using xs by simp
      have B: "\<forall>y \<in> set (best # x # ps). key y < key (max_scan key best xs)"
        using lo Cons p xb by simp
      from A B hi show ?thesis unfolding m by blast
    qed
  qed
qed

lemma min_scan_first_best:
  "\<exists>pre post. best # xs = pre @ min_scan key best xs # post
     \<and> (\<forall>y \<in> set pre. key (min_scan key best xs) < key y)
     \<and> (\<forall>y \<in> set post. key (min_scan key best xs) \<le> key y)"
proof (induction xs arbitrary: best)
  case Nil
  have "[best] = [] @ min_scan key best [] # []" by simp
  then show ?case by fastforce
next
  case (Cons x xs)
  show ?case
  proof (cases "key x < key best")
    case True
    then have m: "min_scan key best (x # xs) = min_scan key x xs" by simp
    from Cons.IH [of x] obtain pre post where
      d: "x # xs = pre @ min_scan key x xs # post"
      and lo: "\<forall>y \<in> set pre. key (min_scan key x xs) < key y"
      and hi: "\<forall>y \<in> set post. key (min_scan key x xs) \<le> key y"
      by blast
    have "key (min_scan key x xs) \<le> key x"
    proof (cases pre)
      case Nil
      from d [unfolded Nil append_Nil] have "x = min_scan key x xs"
        by (rule list.inject [THEN iffD1, THEN conjunct1])
      then show ?thesis by simp
    next
      case (Cons p ps)
      with d lo show ?thesis by auto
    qed
    with True have bk: "key (min_scan key x xs) < key best" by simp
    have A: "best # x # xs = (best # pre) @ min_scan key x xs # post" using d by simp
    have B: "\<forall>y \<in> set (best # pre). key (min_scan key x xs) < key y" using lo bk by simp
    from A B hi show ?thesis unfolding m by blast
  next
    case False
    then have m: "min_scan key best (x # xs) = min_scan key best xs" by simp
    from Cons.IH [of best] obtain pre post where
      d: "best # xs = pre @ min_scan key best xs # post"
      and lo: "\<forall>y \<in> set pre. key (min_scan key best xs) < key y"
      and hi: "\<forall>y \<in> set post. key (min_scan key best xs) \<le> key y"
      by blast
    show ?thesis
    proof (cases pre)
      case Nil
      note inj = d [unfolded Nil append_Nil, THEN list.inject [THEN iffD1]]
      from inj have b: "best = min_scan key best xs" by (rule conjunct1)
      from inj have p: "xs = post" by (rule conjunct2)
      from False b have xb: "key (min_scan key best xs) \<le> key x" by simp
      have A: "best # x # xs = [] @ min_scan key best xs # (x # post)" using b p by simp
      have B: "\<forall>y \<in> set (x # post). key (min_scan key best xs) \<le> key y" using hi xb by simp
      have C: "\<forall>y \<in> set ([]::'a list). key (min_scan key best xs) < key y" by simp
      from A B C show ?thesis unfolding m by blast
    next
      case (Cons p ps)
      note inj = d [unfolded Cons append_Cons, THEN list.inject [THEN iffD1]]
      from inj have "best = p" by (rule conjunct1)
      then have p: "p = best" by (rule sym)
      from inj have xs: "xs = ps @ min_scan key best xs # post" by (rule conjunct2)
      from lo Cons p have "key (min_scan key best xs) < key best" by simp
      with False have xb: "key (min_scan key best xs) < key x" by simp
      have A: "best # x # xs = (best # x # ps) @ min_scan key best xs # post" using xs by simp
      have B: "\<forall>y \<in> set (best # x # ps). key (min_scan key best xs) < key y"
        using lo Cons p xb by simp
      from A B hi show ?thesis unfolding m by blast
    qed
  qed
qed

lemma py_max_first_best:
  assumes "xs \<noteq> []"
  shows "\<exists>pre k post. xs = pre @ k # post \<and> py_max key xs = Some k
     \<and> (\<forall>y \<in> set pre. key y < key k) \<and> (\<forall>y \<in> set post. key y \<le> key k)"
proof -
  from assms obtain b r where xs: "xs = b # r" by (cases xs) auto
  from max_scan_first_best [of b r key] xs show ?thesis
    by (auto simp: py_max_def)
qed

lemma py_min_first_best:
  assumes "xs \<noteq> []"
  shows "\<exists>pre k post. xs = pre @ k # post \<and> py_min key xs = Some k
     \<and> (\<forall>y \<in> set pre. key k < key y) \<and> (\<forall>y \<in> set post. key k \<le> key y)"
proof -
  from assms obtain b r where xs: "xs = b # r" by (cases xs) auto
  from min_scan_first_best [of b r key] xs show ?thesis
    by (auto simp: py_min_def)
qed

subsection \<open>Counting the files of a group\<close>












subsection \<open>The paths the scanner returns\<close>













lemma two_members: "a \<in> set l \<Longrightarrow> b \<in> set l \<Longrightarrow> a \<noteq> b \<Longrightarrow> 2 \<le> length l"
  by (cases l; cases "tl l") auto

subsection \<open>Every step keeps the invariant\<close>

lemma lock_view_in_lock: "lock_view lp md5 S p pos sh \<Longrightarrow> in_lock pos"
  by (cases pos) auto

lemma critical_step_view:
  assumes "lock_view lp md5 S p pos sh" and "critical_step p sh pos = Some (sh', pos')"
  shows "lock_view lp md5 S p pos' sh'"
proof (cases pos)
  case (L_check_hashes h)
  with assms show ?thesis by (auto simp: critical_step_def)
next
  case (L_check_dups h)
  with assms show ?thesis by (auto simp: critical_step_def)
next
  case (L_append_first h)
  with assms show ?thesis by (auto simp: critical_step_def split: option.splits)
next
  case (L_append_path h)
  with assms show ?thesis
    by (auto simp: critical_step_def process_image_def Let_def)
next
  case (L_store_first h)
  with assms show ?thesis
    by (auto simp: critical_step_def process_image_def Let_def)
next
  case L_count
  with assms show ?thesis by (auto simp: critical_step_def)
qed (use assms in \<open>auto simp: critical_step_def\<close>)

lemma critical_step_not_done:
  "critical_step p sh pos = Some (sh', pos') \<Longrightarrow> pos \<noteq> W_done \<and> pos' \<noteq> W_done \<and> in_lock pos"
  by (cases pos) (auto simp: critical_step_def split: option.splits if_splits)

lemma done_set_same:
  assumes "i < length ps" and "ps ! i \<noteq> W_done" and "pos' \<noteq> W_done"
  shows "{j. j < n \<and> ps[i := pos'] ! j = W_done} = {j. j < n \<and> ps ! j = W_done}"
  using assms by (auto simp: nth_list_update)

lemma done_set_add:
  assumes "i < length ps" and "i < n"
  shows "{j. j < n \<and> ps[i := W_done] ! j = W_done} = insert i {j. j < n \<and> ps ! j = W_done}"
  using assms by (auto simp: nth_list_update)


lemma pool_invI:
  assumes "length ps = length files"
      and "\<forall>j < length files. \<forall>x. ps ! j = W_hashed x \<longrightarrow>
             x = calculate_image_hash lp md5 (files ! j)"
      and "distinct done"
      and "set done = {j. j < length files \<and> ps ! j = W_done}"
      and "case lk of
             None \<Rightarrow>
               sh = process_all lp md5 st0 (map ((!) files) done)
               \<and> (\<forall>j < length files. \<not> in_lock (ps ! j))
           | Some k \<Rightarrow>
               k < length files
               \<and> (\<forall>j < length files. j \<noteq> k \<longrightarrow> \<not> in_lock (ps ! j))
               \<and> lock_view lp md5 (process_all lp md5 st0 (map ((!) files) done))
                    (files ! k) (ps ! k) sh"
  shows "pool_inv lp md5 st0 files \<lparr>shared = sh, lock = lk, positions = ps\<rparr>"
  using assms unfolding pool_inv_def by (simp only: pool.simps) blast

lemma step_worker_inv:
  assumes inv: "pool_inv lp md5 st0 files pl"
      and step: "step_worker lp md5 files pl i = Some pl'"
  shows "pool_inv lp md5 st0 files pl'"
proof -
  from step have i: "i < length files" "i < length (positions pl)"
    by (auto simp: step_worker_def split: if_splits)
  from inv obtain "done" where
    len: "length (positions pl) = length files"
    and hk: "\<forall>j < length files. \<forall>x. positions pl ! j = W_hashed x \<longrightarrow>
           x = calculate_image_hash lp md5 (files ! j)"
    and dd: "distinct done"
    and ds: "set done = {j. j < length files \<and> positions pl ! j = W_done}"
    and lk: "case lock pl of
                 None \<Rightarrow>
                   shared pl = process_all lp md5 st0 (map ((!) files) done)
                   \<and> (\<forall>j < length files. \<not> in_lock (positions pl ! j))
               | Some k \<Rightarrow>
                   k < length files
                   \<and> (\<forall>j < length files. j \<noteq> k \<longrightarrow> \<not> in_lock (positions pl ! j))
                   \<and> lock_view lp md5 (process_all lp md5 st0 (map ((!) files) done))
                        (files ! k) (positions pl ! k) (shared pl)"
    unfolding pool_inv_def by blast
  let ?S = "process_all lp md5 st0 (map ((!) files) done)"
  have holder: "in_lock (positions pl ! i) \<Longrightarrow> lock pl = Some i"
    using lk i by (cases "lock pl") auto
  have other: "\<And>k. lock pl = Some k \<Longrightarrow> \<not> in_lock (positions pl ! i) \<Longrightarrow> k \<noteq> i"
    using lk by (auto dest: lock_view_in_lock)
  txt \<open>A move outside the lock to a position that is not the end.\<close>
  have outside: "pool_inv lp md5 st0 files (pl\<lparr>positions := (positions pl)[i := pos']\<rparr>)"
    if a: "\<not> in_lock (positions pl ! i)" "positions pl ! i \<noteq> W_done"
      and b: "\<not> in_lock pos'" "pos' \<noteq> W_done"
      and c: "\<forall>x. pos' = W_hashed x \<longrightarrow> x = calculate_image_hash lp md5 (files ! i)"
    for pos'
  proof -
    have s: "set done = {j. j < length files \<and> (positions pl)[i := pos'] ! j = W_done}"
      using ds done_set_same [OF i(2) a(2) b(2)] by simp
    have l: "case lock pl of
                 None \<Rightarrow>
                   shared pl = ?S
                   \<and> (\<forall>j < length files. \<not> in_lock ((positions pl)[i := pos'] ! j))
               | Some k \<Rightarrow>
                   k < length files
                   \<and> (\<forall>j < length files. j \<noteq> k \<longrightarrow> \<not> in_lock ((positions pl)[i := pos'] ! j))
                   \<and> lock_view lp md5 ?S (files ! k) ((positions pl)[i := pos'] ! k) (shared pl)"
      using lk other a b i len by (auto simp: nth_list_update split: option.splits)
    have h: "\<forall>j < length files. \<forall>x. (positions pl)[i := pos'] ! j = W_hashed x \<longrightarrow>
           x = calculate_image_hash lp md5 (files ! j)"
      using hk c i len by (auto simp: nth_list_update)
    have "pool_inv lp md5 st0 files
        \<lparr>shared = shared pl, lock = lock pl, positions = (positions pl)[i := pos']\<rparr>"
      using len h dd s l by (intro pool_invI [where ?done = "done"]) simp_all
    then show ?thesis by (cases pl) simp
  qed
  txt \<open>A call that ends without entering the lock.\<close>
  have skip: "pool_inv lp md5 st0 files (pl\<lparr>positions := (positions pl)[i := W_done]\<rparr>)"
    if a: "\<not> in_lock (positions pl ! i)" "positions pl ! i \<noteq> W_done"
      and b: "\<not> hashed lp md5 (files ! i)"
  proof -
    from a(2) ds have fresh: "i \<notin> set done" by simp
    have s: "set (done @ [i]) = {j. j < length files \<and> (positions pl)[i := W_done] ! j = W_done}"
      using ds done_set_add [OF i(2) i(1)] by simp
    have d: "distinct (done @ [i])" using dd fresh by simp
    have S: "process_all lp md5 st0 (map ((!) files) (done @ [i])) = ?S"
      by (simp add: process_all_append process_image_not_hashed [OF b])
    have l: "case lock pl of
                 None \<Rightarrow>
                   shared pl = process_all lp md5 st0 (map ((!) files) (done @ [i]))
                   \<and> (\<forall>j < length files. \<not> in_lock ((positions pl)[i := W_done] ! j))
               | Some k \<Rightarrow>
                   k < length files
                   \<and> (\<forall>j < length files. j \<noteq> k \<longrightarrow> \<not> in_lock ((positions pl)[i := W_done] ! j))
                   \<and> lock_view lp md5 (process_all lp md5 st0 (map ((!) files) (done @ [i])))
                        (files ! k) ((positions pl)[i := W_done] ! k) (shared pl)"
      unfolding S using lk other a i len by (auto simp: nth_list_update split: option.splits)
    have h: "\<forall>j < length files. \<forall>x. (positions pl)[i := W_done] ! j = W_hashed x \<longrightarrow>
           x = calculate_image_hash lp md5 (files ! j)"
      using hk i len by (auto simp: nth_list_update)
    have "pool_inv lp md5 st0 files
        \<lparr>shared = shared pl, lock = lock pl, positions = (positions pl)[i := W_done]\<rparr>"
      using len h d s l by (intro pool_invI [where ?done = "done @ [i]"]) simp_all
    then show ?thesis by (cases pl) simp
  qed
  txt \<open>A statement under the lock.\<close>
  have inside: "pool_inv lp md5 st0 files pl'"
    if a: "critical_step (files ! i) (shared pl) (positions pl ! i) = Some (st', pos')"
      and b: "pl' = pl\<lparr>shared := st', positions := (positions pl)[i := pos']\<rparr>"
    for st' pos'
  proof -
    note n = critical_step_not_done [OF a]
    from n have own: "lock pl = Some i" by (intro holder) simp
    with lk have v: "lock_view lp md5 ?S (files ! i) (positions pl ! i) (shared pl)"
      and alone: "\<forall>j < length files. j \<noteq> i \<longrightarrow> \<not> in_lock (positions pl ! j)"
      by auto
    note v' = critical_step_view [OF v a]
    have s: "set done = {j. j < length files \<and> (positions pl)[i := pos'] ! j = W_done}"
      using ds done_set_same [OF i(2), of pos' "length files"] n by simp
    have l: "i < length files
                   \<and> (\<forall>j < length files. j \<noteq> i \<longrightarrow> \<not> in_lock ((positions pl)[i := pos'] ! j))
                   \<and> lock_view lp md5 ?S (files ! i) ((positions pl)[i := pos'] ! i) st'"
      using v' alone i len by (auto simp: nth_list_update)
    have hh: "\<forall>j < length files. \<forall>x. (positions pl)[i := pos'] ! j = W_hashed x \<longrightarrow>
           x = calculate_image_hash lp md5 (files ! j)"
      using hk i len v' by (auto simp: nth_list_update)
    have "pool_inv lp md5 st0 files
        \<lparr>shared = st', lock = Some i, positions = (positions pl)[i := pos']\<rparr>"
      using len hh dd s l i by (intro pool_invI [where ?done = "done"]) simp_all
    then show ?thesis unfolding b using own by (cases pl) simp
  qed
  show ?thesis
  proof (cases "positions pl ! i")
    case W_start
    with step i have "pl' = pl\<lparr>positions := (positions pl)
        [i := W_hashed (calculate_image_hash lp md5 (files ! i))]\<rparr>"
      by (simp add: step_worker_def Let_def)
    with outside [of "W_hashed (calculate_image_hash lp md5 (files ! i))"] W_start
    show ?thesis by simp
  next
    case (W_hashed x)
    with hk i have x: "x = calculate_image_hash lp md5 (files ! i)" by simp
    show ?thesis
    proof (cases "hashed lp md5 (files ! i)")
      case False
      with x W_hashed step i have "pl' = pl\<lparr>positions := (positions pl)[i := W_done]\<rparr>"
        by (auto simp: step_worker_def Let_def hashed_def split: option.splits if_splits)
      with skip [OF _ _ False] W_hashed show ?thesis by simp
    next
      case True
      with x obtain h where h: "x = Some h" "h \<noteq> []"
        by (auto simp: hashed_def split: option.splits)
      with W_hashed step i have free: "lock pl = None"
        and pl': "pl' = pl\<lparr>lock := Some i, positions := (positions pl)[i := L_check_hashes h]\<rparr>"
        by (auto simp: step_worker_def Let_def split: option.splits)
      have s: "set done = {j. j < length files \<and> (positions pl)[i := L_check_hashes h] ! j = W_done}"
        using ds done_set_same [OF i(2), of "L_check_hashes h" "length files"] W_hashed by simp
      have l: "i < length files
                   \<and> (\<forall>j < length files. j \<noteq> i \<longrightarrow> \<not> in_lock ((positions pl)[i := L_check_hashes h] ! j))
                   \<and> lock_view lp md5 ?S (files ! i) ((positions pl)[i := L_check_hashes h] ! i) (shared pl)"
        using lk free i len x h by (auto simp: nth_list_update)
      have hh: "\<forall>j < length files. \<forall>x. (positions pl)[i := L_check_hashes h] ! j = W_hashed x \<longrightarrow>
           x = calculate_image_hash lp md5 (files ! j)"
        using hk i len by (auto simp: nth_list_update)
      have "pool_inv lp md5 st0 files
          \<lparr>shared = shared pl, lock = Some i, positions = (positions pl)[i := L_check_hashes h]\<rparr>"
        using len hh dd s l i by (intro pool_invI [where ?done = "done"]) simp_all
      then show ?thesis unfolding pl' by (cases pl) simp
    qed
  next
    case L_release
    then have own: "lock pl = Some i" by (intro holder) simp
    with lk L_release have v: "shared pl = process_image lp md5 ?S (files ! i)"
      and alone: "\<forall>j < length files. j \<noteq> i \<longrightarrow> \<not> in_lock (positions pl ! j)"
      by auto
    from L_release step i have pl': "pl' = pl\<lparr>lock := None, positions := (positions pl)[i := W_done]\<rparr>"
      by (simp add: step_worker_def Let_def)
    from L_release ds have fresh: "i \<notin> set done" by simp
    have s: "set (done @ [i]) = {j. j < length files \<and> (positions pl)[i := W_done] ! j = W_done}"
      using ds done_set_add [OF i(2) i(1)] by simp
    have d: "distinct (done @ [i])" using dd fresh by simp
    have l: "shared pl = process_all lp md5 st0 (map ((!) files) (done @ [i]))
                   \<and> (\<forall>j < length files. \<not> in_lock ((positions pl)[i := W_done] ! j))"
      using v alone i len by (auto simp: nth_list_update process_all_append)
    have hh: "\<forall>j < length files. \<forall>x. (positions pl)[i := W_done] ! j = W_hashed x \<longrightarrow>
           x = calculate_image_hash lp md5 (files ! j)"
      using hk i len by (auto simp: nth_list_update)
    have "pool_inv lp md5 st0 files
        \<lparr>shared = shared pl, lock = None, positions = (positions pl)[i := W_done]\<rparr>"
      using len hh d s l by (intro pool_invI [where ?done = "done @ [i]"]) simp_all
    then show ?thesis unfolding pl' by (cases pl) simp
  next
    case W_done
    with step i show ?thesis by (simp add: step_worker_def Let_def)
  next
    case (L_check_hashes h)
    with step i obtain st' pos' where
      "critical_step (files ! i) (shared pl) (positions pl ! i) = Some (st', pos')"
      "pl' = pl\<lparr>shared := st', positions := (positions pl)[i := pos']\<rparr>"
      by (auto simp: step_worker_def Let_def split: option.splits)
    then show ?thesis by (rule inside)
  next
    case (L_check_dups h)
    with step i obtain st' pos' where
      "critical_step (files ! i) (shared pl) (positions pl ! i) = Some (st', pos')"
      "pl' = pl\<lparr>shared := st', positions := (positions pl)[i := pos']\<rparr>"
      by (auto simp: step_worker_def Let_def split: option.splits)
    then show ?thesis by (rule inside)
  next
    case (L_append_first h)
    with step i obtain st' pos' where
      "critical_step (files ! i) (shared pl) (positions pl ! i) = Some (st', pos')"
      "pl' = pl\<lparr>shared := st', positions := (positions pl)[i := pos']\<rparr>"
      by (auto simp: step_worker_def Let_def split: option.splits)
    then show ?thesis by (rule inside)
  next
    case (L_append_path h)
    with step i obtain st' pos' where
      "critical_step (files ! i) (shared pl) (positions pl ! i) = Some (st', pos')"
      "pl' = pl\<lparr>shared := st', positions := (positions pl)[i := pos']\<rparr>"
      by (auto simp: step_worker_def Let_def split: option.splits)
    then show ?thesis by (rule inside)
  next
    case (L_store_first h)
    with step i obtain st' pos' where
      "critical_step (files ! i) (shared pl) (positions pl ! i) = Some (st', pos')"
      "pl' = pl\<lparr>shared := st', positions := (positions pl)[i := pos']\<rparr>"
      by (auto simp: step_worker_def Let_def split: option.splits)
    then show ?thesis by (rule inside)
  next
    case L_count
    with step i obtain st' pos' where
      "critical_step (files ! i) (shared pl) (positions pl ! i) = Some (st', pos')"
      "pl' = pl\<lparr>shared := st', positions := (positions pl)[i := pos']\<rparr>"
      by (auto simp: step_worker_def Let_def split: option.splits)
    then show ?thesis by (rule inside)
  qed
qed


lemma run_schedule_inv:
  "pool_inv lp md5 st0 files pl \<Longrightarrow> run_schedule lp md5 files pl schedule = Some pl' \<Longrightarrow>
     pool_inv lp md5 st0 files pl'"
proof (induction schedule arbitrary: pl)
  case Nil
  then show ?case by simp
next
  case (Cons i schedule)
  from Cons.prems(2) obtain pl1 where
    s: "step_worker lp md5 files pl i = Some pl1"
    and r: "run_schedule lp md5 files pl1 schedule = Some pl'"
    by (auto split: option.splits)
  from Cons.IH [OF step_worker_inv [OF Cons.prems(1) s] r] show ?case .
qed

lemma initial_pool_inv: "pool_inv lp md5 st0 files (initial_pool st0 files)"
  unfolding initial_pool_def
  by (rule pool_invI [where ?done = "[]"]) simp_all

lemma finished_pool:
  assumes "pool_inv lp md5 st0 files pl" and "all_done pl"
  shows "lock pl = None
       \<and> (\<exists>order. mset order = mset files \<and> shared pl = process_all lp md5 st0 order)"
proof -
  from assms(1) obtain "done" where
    len: "length (positions pl) = length files"
    and dd: "distinct done"
    and ds: "set done = {j. j < length files \<and> positions pl ! j = W_done}"
    and lk: "case lock pl of
                 None \<Rightarrow>
                   shared pl = process_all lp md5 st0 (map ((!) files) done)
                   \<and> (\<forall>j < length files. \<not> in_lock (positions pl ! j))
               | Some k \<Rightarrow>
                   k < length files
                   \<and> (\<forall>j < length files. j \<noteq> k \<longrightarrow> \<not> in_lock (positions pl ! j))
                   \<and> lock_view lp md5 (process_all lp md5 st0 (map ((!) files) done))
                        (files ! k) (positions pl ! k) (shared pl)"
    unfolding pool_inv_def by blast
  from assms(2) len have fin: "\<forall>j < length files. positions pl ! j = W_done"
    by (simp add: all_done_def list_all_length)
  have free: "lock pl = None"
  proof (cases "lock pl")
    case (Some k)
    with lk fin show ?thesis by auto
  qed simp
  with lk have sh: "shared pl = process_all lp md5 st0 (map ((!) files) done)" by simp
  from ds fin have "set done = set [0 ..< length files]" by auto
  with dd have "mset done = mset [0 ..< length files]"
    by (subst set_eq_iff_mset_eq_distinct [symmetric]) simp_all
  then have "mset (map ((!) files) done) = mset (map ((!) files) [0 ..< length files])"
    by (metis mset_map)
  then have "mset (map ((!) files) done) = mset files" by (simp add: map_nth)
  with free sh show ?thesis by blast
qed

lemma with_hash_set:
  "set (with_hash lp md5 files h) = {f \<in> set files. calculate_image_hash lp md5 f = Some h}"
  by (auto simp: with_hash_def)

subsection \<open>What decides that two files are duplicates\<close>

text \<open>
  C1, as the claim states it, fails: no full-content hash and no comparison of bytes
  exists in either program. The two files below differ in their contents and in
  their thumbnails. The detector puts them in one group, because the grey levels
  1, 11 and 11, 1 give the same string \<^verbatim>\<open>111\<close>; and the sorter's fingerprint is the
  same for both, because it reads the first 8192 bytes only, so its duplicate check
  puts them in one list. The digest is the identity here: a digest without any
  collision would not tell them apart either.
\<close>

theorem different_files_in_one_group:
  "demo_thumbs ''big1.jpg'' \<noteq> demo_thumbs ''big2.jpg''
   \<and> duplicates (detect_duplicates demo_thumbs demo_md5 (init_detector 12) [''big1.jpg'', ''big2.jpg''])
       = [(pixel_string (1 # 11 # replicate 62 0), [''big1.jpg'', ''big2.jpg''])]
   \<and> demo_read ''big1.jpg'' \<noteq> demo_read ''big2.jpg''
   \<and> calculate_file_hash demo_read demo_md5 ''big1.jpg''
       = calculate_file_hash demo_read demo_md5 ''big2.jpg''
   \<and> fst (check_duplicate True (fst (check_duplicate True []
           (calculate_file_hash demo_read demo_md5 ''big1.jpg'') ''big1.jpg''))
           (calculate_file_hash demo_read demo_md5 ''big2.jpg'') ''big2.jpg'')
       = [(calculate_file_hash demo_read demo_md5 ''big1.jpg'', [''big1.jpg'', ''big2.jpg''])]"
proof -
  have a: "demo_thumbs ''big1.jpg'' \<noteq> demo_thumbs ''big2.jpg''
   \<and> duplicates (detect_duplicates demo_thumbs demo_md5 (init_detector 12) [''big1.jpg'', ''big2.jpg''])
       = [(pixel_string (1 # 11 # replicate 62 0), [''big1.jpg'', ''big2.jpg''])]"
    by code_simp
  have b: "demo_read ''big1.jpg'' \<noteq> demo_read ''big2.jpg''
   \<and> calculate_file_hash demo_read demo_md5 ''big1.jpg''
       = calculate_file_hash demo_read demo_md5 ''big2.jpg''"
    by (simp add: demo_read_def calculate_file_hash_def)
  have c: "fst (check_duplicate True (fst (check_duplicate True []
           (calculate_file_hash demo_read demo_md5 ''big1.jpg'') ''big1.jpg''))
           (calculate_file_hash demo_read demo_md5 ''big2.jpg'') ''big2.jpg'')
       = [(calculate_file_hash demo_read demo_md5 ''big1.jpg'', [''big1.jpg'', ''big2.jpg''])]"
    by (simp add: demo_read_def calculate_file_hash_def check_duplicate_def demo_md5_def)
  from a b c show ?thesis by (intro conjI) (elim conjE, assumption)+
qed

text \<open>
  C1, amended. Two different files of a batch are in one group of the detector
  exactly when \<^verbatim>\<open>calculate_image_hash\<close> succeeds and gives the same value for both; that
  value depends on the file only through the string of the grey levels of its 8 by 8
  thumbnail. The sorter's \<^verbatim>\<open>calculate_file_hash\<close> depends on a file only through its
  first 8192 bytes, and its duplicate check puts two files with the same non-empty
  value in one list. Nothing else is compared.
\<close>

theorem grouping_is_by_lossy_fingerprint:
  assumes "st = detect_duplicates lp md5 (init_detector n) files"
      and "f1 \<in> set files" and "f2 \<in> set files" and "f1 \<noteq> f2"
  shows "((\<exists>h l. (h, l) \<in> set (duplicates st) \<and> f1 \<in> set l \<and> f2 \<in> set l) \<longleftrightarrow>
            hashed lp md5 f1 \<and> calculate_image_hash lp md5 f1 = calculate_image_hash lp md5 f2)
       \<and> (\<forall>px1 px2. lp f1 = Some px1 \<and> lp f2 = Some px2 \<and> pixel_string px1 = pixel_string px2 \<longrightarrow>
            calculate_image_hash lp md5 f1 = calculate_image_hash lp md5 f2)
       \<and> (\<forall>c1 c2. rd f1 = Some c1 \<and> rd f2 = Some c2 \<and> take 8192 c1 = take 8192 c2 \<longrightarrow>
            calculate_file_hash rd md5 f1 = calculate_file_hash rd md5 f2)
       \<and> (\<forall>dups. calculate_file_hash rd md5 f1 = calculate_file_hash rd md5 f2
              \<and> calculate_file_hash rd md5 f1 \<noteq> [] \<longrightarrow>
            (\<exists>names. map_of (fst (check_duplicate True
                         (fst (check_duplicate True dups (calculate_file_hash rd md5 f1) f1))
                         (calculate_file_hash rd md5 f2) f2))
                       (calculate_file_hash rd md5 f1) = Some names
                     \<and> f1 \<in> set names \<and> f2 \<in> set names))"
proof -
  have e: "image_hashes (init_detector n\<lparr>total_files := length files\<rparr>) = []"
     "duplicates (init_detector n\<lparr>total_files := length files\<rparr>) = []"
    by (simp_all add: init_detector_def)
  have st: "st = process_all lp md5 (init_detector n\<lparr>total_files := length files\<rparr>) files"
    by (simp add: assms(1) detect_duplicates_run)
  have ent: "\<And>k l. (k, l) \<in> set (duplicates st) \<longleftrightarrow>
      k \<noteq> [] \<and> 2 \<le> length (with_hash lp md5 files k) \<and> l = with_hash lp md5 files k"
    unfolding st by (rule duplicates_entries [OF e])
  have a: "(\<exists>h l. (h, l) \<in> set (duplicates st) \<and> f1 \<in> set l \<and> f2 \<in> set l) \<longleftrightarrow>
            hashed lp md5 f1 \<and> calculate_image_hash lp md5 f1 = calculate_image_hash lp md5 f2"
  proof
    assume "\<exists>h l. (h, l) \<in> set (duplicates st) \<and> f1 \<in> set l \<and> f2 \<in> set l"
    then show "hashed lp md5 f1 \<and> calculate_image_hash lp md5 f1 = calculate_image_hash lp md5 f2"
      by (auto simp: ent with_hash_def hashed_def)
  next
    assume r: "hashed lp md5 f1 \<and> calculate_image_hash lp md5 f1 = calculate_image_hash lp md5 f2"
    then obtain h where h: "calculate_image_hash lp md5 f1 = Some h" "h \<noteq> []"
      by (auto simp: hashed_def split: option.splits)
    with r assms(2,3) have m: "f1 \<in> set (with_hash lp md5 files h)" "f2 \<in> set (with_hash lp md5 files h)"
      by (simp_all add: with_hash_def)
    from two_members [OF m assms(4)] h m
    have "(h, with_hash lp md5 files h) \<in> set (duplicates st)" by (simp add: ent)
    with m show "\<exists>h l. (h, l) \<in> set (duplicates st) \<and> f1 \<in> set l \<and> f2 \<in> set l" by blast
  qed
  have b: "\<forall>px1 px2. lp f1 = Some px1 \<and> lp f2 = Some px2 \<and> pixel_string px1 = pixel_string px2 \<longrightarrow>
            calculate_image_hash lp md5 f1 = calculate_image_hash lp md5 f2"
    by (simp add: calculate_image_hash_def)
  have c: "\<forall>c1 c2. rd f1 = Some c1 \<and> rd f2 = Some c2 \<and> take 8192 c1 = take 8192 c2 \<longrightarrow>
            calculate_file_hash rd md5 f1 = calculate_file_hash rd md5 f2"
    by (simp add: calculate_file_hash_def)
  have d: "\<forall>dups. calculate_file_hash rd md5 f1 = calculate_file_hash rd md5 f2
              \<and> calculate_file_hash rd md5 f1 \<noteq> [] \<longrightarrow>
            (\<exists>names. map_of (fst (check_duplicate True
                         (fst (check_duplicate True dups (calculate_file_hash rd md5 f1) f1))
                         (calculate_file_hash rd md5 f2) f2))
                       (calculate_file_hash rd md5 f1) = Some names
                     \<and> f1 \<in> set names \<and> f2 \<in> set names)"
    by (auto simp: check_duplicate_def update_conv' split: option.splits)
  from a b c d show ?thesis by blast
qed

theorem grouping_is_by_lossy_fingerprint_witness:
  "''big1.jpg'' \<in> set [''big1.jpg'', ''big2.jpg'']
   \<and> ''big2.jpg'' \<in> set [''big1.jpg'', ''big2.jpg'']
   \<and> ''big1.jpg'' \<noteq> ''big2.jpg''
   \<and> hashed demo_thumbs demo_md5 ''big1.jpg''
   \<and> calculate_image_hash demo_thumbs demo_md5 ''big1.jpg''
       = calculate_image_hash demo_thumbs demo_md5 ''big2.jpg''
   \<and> (\<exists>h l. (h, l) \<in> set (duplicates
           (detect_duplicates demo_thumbs demo_md5 (init_detector 12) [''big1.jpg'', ''big2.jpg'']))
         \<and> ''big1.jpg'' \<in> set l \<and> ''big2.jpg'' \<in> set l)"
proof -
  have m1: "''big1.jpg'' \<in> set [''big1.jpg'', ''big2.jpg'']"
    and m2: "''big2.jpg'' \<in> set [''big1.jpg'', ''big2.jpg'']"
    and ne: "''big1.jpg'' \<noteq> ''big2.jpg''"
    by simp_all
  have h: "hashed demo_thumbs demo_md5 ''big1.jpg''"
    by code_simp
  have eq: "calculate_image_hash demo_thumbs demo_md5 ''big1.jpg''
       = calculate_image_hash demo_thumbs demo_md5 ''big2.jpg''"
    by code_simp
  note t = grouping_is_by_lossy_fingerprint [OF refl m1 m2 ne, of demo_thumbs demo_md5 12 demo_read]
  from t [THEN conjunct1, THEN iffD2, OF conjI [OF h eq]]
  have g: "\<exists>h l. (h, l) \<in> set (duplicates
           (detect_duplicates demo_thumbs demo_md5 (init_detector 12) [''big1.jpg'', ''big2.jpg'']))
         \<and> ''big1.jpg'' \<in> set l \<and> ''big2.jpg'' \<in> set l" .
  from m1 m2 ne h eq g show ?thesis
    by (intro conjI) assumption+
qed

subsection \<open>A backup that fails\<close>

text \<open>
  C2. With a backup directory, when the loop of \<^verbatim>\<open>delete_duplicate_files\<close> reaches a
  file (scheduled once) and the copy of that file to its backup path raises, the round
  ends in the \<^verbatim>\<open>except\<close> branch: the file system is left as it was, nothing is added to
  \<^verbatim>\<open>deleted_files\<close>, and the file with the error is appended to
  \<^verbatim>\<open>failed_deletions\<close>. At the end of the run the file is not among the deleted
  files, it is in the failure list with that error, and if it existed it is still
  there, unchanged. In the other direction, a round that appends a file to
  \<^verbatim>\<open>deleted_files\<close> has copied it: after the round its backup path holds the file as
  it was.
\<close>

theorem failed_backup_skips_deletion:
  assumes "backup_requested backup_dir"
      and "delete_duplicate_files env fs0 before backup_dir = Inr (fs, deleted, failed)"
      and "shutil_copy2 env fs file_path (backup_path_for fs (the backup_dir) file_path) = Inl e"
      and "delete_duplicate_files env fs0 (before @ file_path # rest) backup_dir
             = Inr (fs', deleted', failed')"
      and "file_path \<notin> set before" and "file_path \<notin> set rest"
  shows "delete_step env backup_dir (fs, deleted, failed) file_path
           = (fs, deleted, failed @ [(file_path, e)])
       \<and> file_path \<notin> set deleted'
       \<and> (file_path, e) \<in> set failed'
       \<and> (\<forall>nd. map_of fs file_path = Some nd \<longrightarrow> map_of fs' file_path = Some nd)
       \<and> (\<forall>fsa da fa g fsb fb.
             delete_step env backup_dir (fsa, da, fa) g = (fsb, da @ [g], fb) \<longrightarrow>
             (\<exists>nd. map_of fsa g = Some nd
                   \<and> map_of fsb (backup_path_for fsa (the backup_dir) g) = Some nd))"
proof -
  from assms(2) obtain fs1 where
    mk: "(if backup_requested backup_dir then os_makedirs env fs0 (the backup_dir) else Inr fs0) = Inr fs1"
    and run1: "delete_loop env backup_dir (fs1, [], []) before = (fs, deleted, failed)"
    by (auto simp: delete_duplicate_files_def split: sum.splits)
  from assms(4) mk have run2:
    "delete_loop env backup_dir (fs1, [], []) (before @ file_path # rest) = (fs', deleted', failed')"
    by (auto simp: delete_duplicate_files_def split: sum.splits)
  have step: "delete_step env backup_dir (fs, deleted, failed) file_path
           = (fs, deleted, failed @ [(file_path, e)])"
    using assms(1,3) by (simp add: delete_step_def)
  from run2 run1 step have tail:
    "delete_loop env backup_dir (fs, deleted, failed @ [(file_path, e)]) rest = (fs', deleted', failed')"
    by (simp add: delete_loop_append)
  from delete_loop_lists [OF run1] have d0: "set deleted \<subseteq> set before" by auto
  from delete_loop_lists [OF tail] obtain dn fn where
    r: "deleted' = deleted @ dn" "failed' = (failed @ [(file_path, e)]) @ fn" "set dn \<subseteq> set rest"
    by blast
  from d0 r assms(5,6) have a: "file_path \<notin> set deleted'" by auto
  from r have b: "(file_path, e) \<in> set failed'" by simp
  have c: "\<forall>nd. map_of fs file_path = Some nd \<longrightarrow> map_of fs' file_path = Some nd"
    using delete_loop_keeps_others [OF tail assms(6)] by blast
  have d: "\<forall>fsa da fa g fsb fb.
             delete_step env backup_dir (fsa, da, fa) g = (fsb, da @ [g], fb) \<longrightarrow>
             (\<exists>nd. map_of fsa g = Some nd
                   \<and> map_of fsb (backup_path_for fsa (the backup_dir) g) = Some nd)"
    using deleted_has_backup [OF assms(1)] by blast
  from step a b c d show ?thesis by blast
qed

theorem failed_backup_skips_deletion_witness:
  "backup_requested (Some ''bak'')
   \<and> delete_duplicate_files copy_of_b_fails demo_fs [''pics/a.jpg''] (Some ''bak'')
       = Inr ((AList.delete ''pics/a.jpg'' (AList.update ''bak/a.jpg'' \<lparr>is_dir = False, content = ''AAAA'', node_mtime = 10\<rparr> demo_fs)), [''pics/a.jpg''], [])
   \<and> shutil_copy2 copy_of_b_fails (AList.delete ''pics/a.jpg'' (AList.update ''bak/a.jpg'' \<lparr>is_dir = False, content = ''AAAA'', node_mtime = 10\<rparr> demo_fs)) ''pics/b.jpg''
         (backup_path_for (AList.delete ''pics/a.jpg'' (AList.update ''bak/a.jpg'' \<lparr>is_dir = False, content = ''AAAA'', node_mtime = 10\<rparr> demo_fs)) (the (Some ''bak'')) ''pics/b.jpg'') = Inl ''[Errno 28] No space left on device''
   \<and> snd (projr (delete_duplicate_files copy_of_b_fails demo_fs ([''pics/a.jpg''] @ ''pics/b.jpg'' # [''pics/c.jpg'']) (Some ''bak''))) = ([''pics/a.jpg'', ''pics/c.jpg''], [(''pics/b.jpg'', ''[Errno 28] No space left on device'')])
   \<and> ''pics/b.jpg'' \<notin> set [''pics/a.jpg'', ''pics/c.jpg'']
   \<and> map_of (AList.delete ''pics/a.jpg'' (AList.update ''bak/a.jpg'' \<lparr>is_dir = False, content = ''AAAA'', node_mtime = 10\<rparr> demo_fs)) ''pics/b.jpg'' = Some \<lparr>is_dir = False, content = ''AAAA'', node_mtime = 20\<rparr>
   \<and> map_of (fst (projr (delete_duplicate_files copy_of_b_fails demo_fs ([''pics/a.jpg''] @ ''pics/b.jpg'' # [''pics/c.jpg'']) (Some ''bak'')))) ''pics/b.jpg'' = Some \<lparr>is_dir = False, content = ''AAAA'', node_mtime = 20\<rparr>"
proof -
  have req: "backup_requested (Some ''bak'')"
    by code_simp
  have r1: "delete_duplicate_files copy_of_b_fails demo_fs [''pics/a.jpg''] (Some ''bak'')
       = Inr ((AList.delete ''pics/a.jpg'' (AList.update ''bak/a.jpg'' \<lparr>is_dir = False, content = ''AAAA'', node_mtime = 10\<rparr> demo_fs)), [''pics/a.jpg''], [])"
    by code_simp
  have cp: "shutil_copy2 copy_of_b_fails (AList.delete ''pics/a.jpg'' (AList.update ''bak/a.jpg'' \<lparr>is_dir = False, content = ''AAAA'', node_mtime = 10\<rparr> demo_fs)) ''pics/b.jpg''
         (backup_path_for (AList.delete ''pics/a.jpg'' (AList.update ''bak/a.jpg'' \<lparr>is_dir = False, content = ''AAAA'', node_mtime = 10\<rparr> demo_fs)) (the (Some ''bak'')) ''pics/b.jpg'') = Inl ''[Errno 28] No space left on device''"
    by code_simp
  have r2: "(delete_duplicate_files copy_of_b_fails demo_fs ([''pics/a.jpg''] @ ''pics/b.jpg'' # [''pics/c.jpg'']) (Some ''bak'')) = Inr (fst (projr (delete_duplicate_files copy_of_b_fails demo_fs ([''pics/a.jpg''] @ ''pics/b.jpg'' # [''pics/c.jpg'']) (Some ''bak''))), [''pics/a.jpg'', ''pics/c.jpg''], [(''pics/b.jpg'', ''[Errno 28] No space left on device'')])"
    by code_simp
  have lists: "snd (projr (delete_duplicate_files copy_of_b_fails demo_fs ([''pics/a.jpg''] @ ''pics/b.jpg'' # [''pics/c.jpg'']) (Some ''bak''))) = ([''pics/a.jpg'', ''pics/c.jpg''], [(''pics/b.jpg'', ''[Errno 28] No space left on device'')])"
    by code_simp
  have n1: "''pics/b.jpg'' \<notin> set [''pics/a.jpg'']" and n2: "''pics/b.jpg'' \<notin> set [''pics/c.jpg'']"
    by simp_all
  have there: "map_of (AList.delete ''pics/a.jpg'' (AList.update ''bak/a.jpg'' \<lparr>is_dir = False, content = ''AAAA'', node_mtime = 10\<rparr> demo_fs)) ''pics/b.jpg'' = Some \<lparr>is_dir = False, content = ''AAAA'', node_mtime = 20\<rparr>"
    by code_simp
  note t = failed_backup_skips_deletion [OF req r1 cp r2 n1 n2]
  note absent = t [THEN conjunct2, THEN conjunct1]
  note still = t [THEN conjunct2, THEN conjunct2, THEN conjunct2, THEN conjunct1, rule_format, OF there]
  from req r1 cp lists absent there still show ?thesis
    by (intro conjI) assumption+
qed

subsection \<open>Kept, deleted and failed files of a group\<close>




subsection \<open>The partition of the hashed files\<close>

text \<open>
  C4. After \<^verbatim>\<open>detect_duplicates\<close>, a file of the batch whose fingerprint \<open>h\<close> was computed
  is a member of the group of \<open>h\<close> and of no other group; the union of the groups is
  the set of the files of the batch that were hashed; and the lists that
  \<^verbatim>\<open>display_results\<close> prints are the groups with at least two members, so a group
  with one member is not reported.
\<close>

theorem grouping_partitions_hashed_files:
  assumes "st = detect_duplicates lp md5 (init_detector n) files"
  shows "(f \<in> set files \<and> calculate_image_hash lp md5 f = Some h \<and> h \<noteq> [] \<longrightarrow>
            f \<in> set (group_members st h) \<and> (\<forall>h'. f \<in> set (group_members st h') \<longrightarrow> h' = h))
       \<and> (\<Union>h. set (group_members st h)) = {f \<in> set files. hashed lp md5 f}
       \<and> set (map (\<lambda>(i, k, file_list). file_list) (display_results st)) =
           {group_members st h | h. 2 \<le> length (group_members st h)}"
proof -
  have fr: "fresh_index (init_detector n\<lparr>total_files := length files\<rparr>)"
    by (simp add: fresh_index_def init_detector_def)
  then have e: "image_hashes (init_detector n\<lparr>total_files := length files\<rparr>) = []"
     "duplicates (init_detector n\<lparr>total_files := length files\<rparr>) = []"
    by (simp_all add: fresh_index_def)
  have st: "st = process_all lp md5 (init_detector n\<lparr>total_files := length files\<rparr>) files"
    by (simp add: assms detect_duplicates_run)
  have gm: "\<And>k. group_members st k = (if k = [] then [] else with_hash lp md5 files k)"
    unfolding st by (rule group_members_run [OF fr])
  have one: "f \<in> set files \<and> calculate_image_hash lp md5 f = Some h \<and> h \<noteq> [] \<longrightarrow>
            f \<in> set (group_members st h) \<and> (\<forall>h'. f \<in> set (group_members st h') \<longrightarrow> h' = h)"
    by (auto simp: gm with_hash_def split: if_splits)
  have two: "(\<Union>h. set (group_members st h)) = {f \<in> set files. hashed lp md5 f}"
    by (auto simp: gm with_hash_def hashed_def split: if_splits option.splits)
  have "set (map snd (duplicates st)) = {group_members st h | h. 2 \<le> length (group_members st h)}"
  proof (intro set_eqI iffI)
    fix l assume "l \<in> set (map snd (duplicates st))"
    then obtain k where "(k, l) \<in> set (duplicates st)" by auto
    then have "k \<noteq> [] \<and> 2 \<le> length (with_hash lp md5 files k) \<and> l = with_hash lp md5 files k"
      unfolding st by (simp add: duplicates_entries [OF e])
    then show "l \<in> {group_members st h | h. 2 \<le> length (group_members st h)}"
      by (auto simp: gm intro!: exI [of _ k])
  next
    fix l assume "l \<in> {group_members st h | h. 2 \<le> length (group_members st h)}"
    then obtain k where k: "l = group_members st k" "2 \<le> length (group_members st k)" by auto
    then have "k \<noteq> []" by (auto simp: gm split: if_splits)
    with k have "(k, l) \<in> set (duplicates st)"
      unfolding st by (simp add: duplicates_entries [OF e] gm [unfolded st])
    then show "l \<in> set (map snd (duplicates st))" by force
  qed
  then have three: "set (map (\<lambda>(i, k, file_list). file_list) (display_results st)) =
           {group_members st h | h. 2 \<le> length (group_members st h)}"
    by (simp only: reported_lists)
  from one two three show ?thesis by blast
qed

theorem grouping_partitions_hashed_files_witness:
  "''pics/a.jpg'' \<in> set [''pics/a.jpg'', ''pics/broken.jpg'', ''pics/c.jpg'', ''pics/b.jpg'']
   \<and> calculate_image_hash demo_pixels demo_md5 ''pics/a.jpg'' = Some ''12''
   \<and> ''pics/a.jpg'' \<in> set (group_members (detect_duplicates demo_pixels demo_md5 (init_detector 12)
         [''pics/a.jpg'', ''pics/broken.jpg'', ''pics/c.jpg'', ''pics/b.jpg'']) ''12'')
   \<and> group_members (detect_duplicates demo_pixels demo_md5 (init_detector 12)
         [''pics/a.jpg'', ''pics/broken.jpg'', ''pics/c.jpg'', ''pics/b.jpg'']) ''7'' = [''pics/c.jpg'']
   \<and> map (\<lambda>(i, k, file_list). file_list)
         (display_results (detect_duplicates demo_pixels demo_md5 (init_detector 12)
            [''pics/a.jpg'', ''pics/broken.jpg'', ''pics/c.jpg'', ''pics/b.jpg''])) = [[''pics/a.jpg'', ''pics/b.jpg'']]"
proof -
  have f: "''pics/a.jpg'' \<in> set [''pics/a.jpg'', ''pics/broken.jpg'', ''pics/c.jpg'', ''pics/b.jpg'']"
    by simp
  have h: "calculate_image_hash demo_pixels demo_md5 ''pics/a.jpg'' = Some ''12''"
    by code_simp
  have single: "group_members (detect_duplicates demo_pixels demo_md5 (init_detector 12)
         [''pics/a.jpg'', ''pics/broken.jpg'', ''pics/c.jpg'', ''pics/b.jpg'']) ''7'' = [''pics/c.jpg'']"
    by code_simp
  have shown: "map (\<lambda>(i, k, file_list). file_list)
         (display_results (detect_duplicates demo_pixels demo_md5 (init_detector 12)
            [''pics/a.jpg'', ''pics/broken.jpg'', ''pics/c.jpg'', ''pics/b.jpg''])) = [[''pics/a.jpg'', ''pics/b.jpg'']]"
    by code_simp
  from grouping_partitions_hashed_files [OF refl, of "''pics/a.jpg''"
      "[''pics/a.jpg'', ''pics/broken.jpg'', ''pics/c.jpg'', ''pics/b.jpg'']" demo_pixels demo_md5 "''12''" 12] f h
  have m: "''pics/a.jpg'' \<in> set (group_members (detect_duplicates demo_pixels demo_md5 (init_detector 12)
         [''pics/a.jpg'', ''pics/broken.jpg'', ''pics/c.jpg'', ''pics/b.jpg'']) ''12'')"
    by blast
  from f h m single shown show ?thesis by blast
qed

subsection \<open>The file that is kept\<close>

text \<open>
  C5, as the claim states it, fails on the tie-break: \<^verbatim>\<open>max\<close> and \<^verbatim>\<open>min\<close> are called with
  the key alone, so among equal keys the file that stands first in the group's list
  wins, whatever its path. The two files of equal size are kept in turn when the list
  is turned around, and so are the two files of equal modification time.
\<close>

theorem tie_is_broken_by_position:
  "map info_size (List.map_filter (get_file_info no_faults demo_fs) [''pics/a.jpg'', ''pics/b.jpg'']) = [4, 4]
   \<and> choose_for_group no_faults demo_fs ''largest'' [''pics/a.jpg'', ''pics/b.jpg''] [] = Inr (([''pics/a.jpg''], [''pics/b.jpg'']), [])
   \<and> choose_for_group no_faults demo_fs ''largest'' [''pics/b.jpg'', ''pics/a.jpg''] [] = Inr (([''pics/b.jpg''], [''pics/a.jpg'']), [])
   \<and> map info_mtime (List.map_filter (get_file_info no_faults demo_fs) [''pics/b.jpg'', ''pics/c.jpg'']) = [20, 20]
   \<and> choose_for_group no_faults demo_fs ''newest'' [''pics/b.jpg'', ''pics/c.jpg''] [] = Inr (([''pics/b.jpg''], [''pics/c.jpg'']), [])
   \<and> choose_for_group no_faults demo_fs ''newest'' [''pics/c.jpg'', ''pics/b.jpg''] [] = Inr (([''pics/c.jpg''], [''pics/b.jpg'']), [])"
  by code_simp

text \<open>
  C5, amended. For a group of at least two files of which at least one can be read by
  \<^verbatim>\<open>os.stat\<close>, and one of the four fixed policies, \<^verbatim>\<open>choose_files_to_keep\<close> keeps exactly
  one file, a function of the list of file informations and the policy alone. For
  \<^verbatim>\<open>newest\<close> and \<^verbatim>\<open>oldest\<close> it is a file of greatest, respectively least, modification
  time, for \<^verbatim>\<open>largest\<close> and \<^verbatim>\<open>smallest\<close> of greatest, respectively least, size; among
  equal ones it is the first in the order of the list: every file before it is
  strictly worse.
\<close>

theorem keeper_is_first_best:
  assumes "2 \<le> length file_list"
      and "file_infos = List.map_filter (get_file_info env fs) file_list"
      and "file_infos \<noteq> []"
      and "strategy \<in> {''newest'', ''oldest'', ''largest'', ''smallest''}"
  shows "\<exists>pre k post. file_infos = pre @ k # post
       \<and> choose_for_group env fs strategy file_list answers =
           Inr (([info_path k],
                 map info_path (filter (\<lambda>info. info_path info \<noteq> info_path k) file_infos)),
                answers)
       \<and> (strategy = ''newest'' \<longrightarrow>
            (\<forall>y \<in> set pre. info_mtime y < info_mtime k) \<and> (\<forall>y \<in> set post. info_mtime y \<le> info_mtime k))
       \<and> (strategy = ''oldest'' \<longrightarrow>
            (\<forall>y \<in> set pre. info_mtime k < info_mtime y) \<and> (\<forall>y \<in> set post. info_mtime k \<le> info_mtime y))
       \<and> (strategy = ''largest'' \<longrightarrow>
            (\<forall>y \<in> set pre. info_size y < info_size k) \<and> (\<forall>y \<in> set post. info_size y \<le> info_size k))
       \<and> (strategy = ''smallest'' \<longrightarrow>
            (\<forall>y \<in> set pre. info_size k < info_size y) \<and> (\<forall>y \<in> set post. info_size k \<le> info_size y))"
proof -
  have grp: "\<And>k. select_keeper strategy file_infos answers = Inr (k, answers) \<Longrightarrow>
      choose_for_group env fs strategy file_list answers =
        Inr (([info_path k],
              map info_path (filter (\<lambda>info. info_path info \<noteq> info_path k) file_infos)),
             answers)"
    using assms(1,2,3) by (simp add: choose_for_group_def Let_def)
  have ne: "''newest'' \<noteq> ''oldest''" "''newest'' \<noteq> ''largest''" "''newest'' \<noteq> ''smallest''"
    "''oldest'' \<noteq> ''largest''" "''oldest'' \<noteq> ''smallest''" "''largest'' \<noteq> ''smallest''"
    by simp_all
  from assms(4) consider "strategy = ''newest''" | "strategy = ''oldest''"
    | "strategy = ''largest''" | "strategy = ''smallest''" by blast
  then show ?thesis
  proof cases
    case 1
    from py_max_first_best [OF assms(3), of info_mtime] obtain pre k post where
      d: "file_infos = pre @ k # post" "py_max info_mtime file_infos = Some k"
         "\<forall>y \<in> set pre. info_mtime y < info_mtime k" "\<forall>y \<in> set post. info_mtime y \<le> info_mtime k"
      by blast
    from d(2) 1 have "select_keeper strategy file_infos answers = Inr (k, answers)"
      by (simp add: select_keeper_def)
    from grp [OF this] d 1 ne show ?thesis
      by (intro exI [of _ pre] exI [of _ k] exI [of _ post]) simp
  next
    case 2
    from py_min_first_best [OF assms(3), of info_mtime] obtain pre k post where
      d: "file_infos = pre @ k # post" "py_min info_mtime file_infos = Some k"
         "\<forall>y \<in> set pre. info_mtime k < info_mtime y" "\<forall>y \<in> set post. info_mtime k \<le> info_mtime y"
      by blast
    from d(2) 2 have "select_keeper strategy file_infos answers = Inr (k, answers)"
      by (simp add: select_keeper_def)
    from grp [OF this] d 2 ne show ?thesis
      by (intro exI [of _ pre] exI [of _ k] exI [of _ post]) simp
  next
    case 3
    from py_max_first_best [OF assms(3), of info_size] obtain pre k post where
      d: "file_infos = pre @ k # post" "py_max info_size file_infos = Some k"
         "\<forall>y \<in> set pre. info_size y < info_size k" "\<forall>y \<in> set post. info_size y \<le> info_size k"
      by blast
    from d(2) 3 have "select_keeper strategy file_infos answers = Inr (k, answers)"
      by (simp add: select_keeper_def)
    from grp [OF this] d 3 ne show ?thesis
      by (intro exI [of _ pre] exI [of _ k] exI [of _ post]) simp
  next
    case 4
    from py_min_first_best [OF assms(3), of info_size] obtain pre k post where
      d: "file_infos = pre @ k # post" "py_min info_size file_infos = Some k"
         "\<forall>y \<in> set pre. info_size k < info_size y" "\<forall>y \<in> set post. info_size k \<le> info_size y"
      by blast
    from d(2) 4 have "select_keeper strategy file_infos answers = Inr (k, answers)"
      by (simp add: select_keeper_def)
    from grp [OF this] d 4 ne show ?thesis
      by (intro exI [of _ pre] exI [of _ k] exI [of _ post]) simp
  qed
qed

theorem keeper_is_first_best_witness:
  "2 \<le> length [''pics/a.jpg'', ''pics/b.jpg'', ''pics/c.jpg'']
   \<and> List.map_filter (get_file_info no_faults demo_fs) [''pics/a.jpg'', ''pics/b.jpg'', ''pics/c.jpg''] \<noteq> []
   \<and> ''newest'' \<in> {''newest'', ''oldest'', ''largest'', ''smallest''}
   \<and> choose_for_group no_faults demo_fs ''newest'' [''pics/a.jpg'', ''pics/b.jpg'', ''pics/c.jpg''] [] = Inr (([''pics/b.jpg''], [''pics/a.jpg'', ''pics/c.jpg'']), [])
   \<and> (\<exists>pre k post. List.map_filter (get_file_info no_faults demo_fs) [''pics/a.jpg'', ''pics/b.jpg'', ''pics/c.jpg''] = pre @ k # post
         \<and> choose_for_group no_faults demo_fs ''newest'' [''pics/a.jpg'', ''pics/b.jpg'', ''pics/c.jpg''] [] =
             Inr (([info_path k],
                   map info_path (filter (\<lambda>info. info_path info \<noteq> info_path k)
                     (List.map_filter (get_file_info no_faults demo_fs) [''pics/a.jpg'', ''pics/b.jpg'', ''pics/c.jpg'']))), [])
         \<and> (\<forall>y \<in> set pre. info_mtime y < info_mtime k)
         \<and> (\<forall>y \<in> set post. info_mtime y \<le> info_mtime k))"
proof -
  have h1: "2 \<le> length [''pics/a.jpg'', ''pics/b.jpg'', ''pics/c.jpg'']"
    by simp
  have h3: "List.map_filter (get_file_info no_faults demo_fs) [''pics/a.jpg'', ''pics/b.jpg'', ''pics/c.jpg''] \<noteq> []"
    by code_simp
  have h4: "''newest'' \<in> {''newest'', ''oldest'', ''largest'', ''smallest''}"
    by simp
  have ev: "choose_for_group no_faults demo_fs ''newest'' [''pics/a.jpg'', ''pics/b.jpg'', ''pics/c.jpg''] [] = Inr (([''pics/b.jpg''], [''pics/a.jpg'', ''pics/c.jpg'']), [])"
    by code_simp
  from keeper_is_first_best [OF h1 refl h3 h4, of "[]"]
  have ex: "\<exists>pre k post. List.map_filter (get_file_info no_faults demo_fs) [''pics/a.jpg'', ''pics/b.jpg'', ''pics/c.jpg''] = pre @ k # post
         \<and> choose_for_group no_faults demo_fs ''newest'' [''pics/a.jpg'', ''pics/b.jpg'', ''pics/c.jpg''] [] =
             Inr (([info_path k],
                   map info_path (filter (\<lambda>info. info_path info \<noteq> info_path k)
                     (List.map_filter (get_file_info no_faults demo_fs) [''pics/a.jpg'', ''pics/b.jpg'', ''pics/c.jpg'']))), [])
         \<and> (\<forall>y \<in> set pre. info_mtime y < info_mtime k)
         \<and> (\<forall>y \<in> set post. info_mtime y \<le> info_mtime k)"
    by (elim exE conjE) (intro exI conjI, assumption, assumption, simp_all)
  from h1 h3 h4 ev ex show ?thesis
    by (intro conjI) assumption+
qed

subsection \<open>Files that cannot be fingerprinted\<close>




subsection \<open>Workers that finish at the same time\<close>

text \<open>
  C7. Whatever the interleaving of the calls of \<^verbatim>\<open>process_image\<close>, when all of them
  have returned: the lock is free; the shared state is the one that processing the
  files one after the other, in some order, gives, so every block under the lock
  acted as one step; every file with a fingerprint is a member of the group of its
  fingerprint and of no other, so no append was lost; no fingerprint has two entries
  in the duplicates dictionary; and the set of members of every group is the same as
  after any other interleaving.
\<close>

theorem every_interleaving_gives_the_same_groups:
  assumes "fresh_index st0"
      and "run_schedule lp md5 files (initial_pool st0 files) schedule = Some pl"
      and "all_done pl"
  shows "lock pl = None
       \<and> (\<exists>order. mset order = mset files \<and> shared pl = process_all lp md5 st0 order)
       \<and> (\<forall>h. set (group_members (shared pl) h)
               = {f \<in> set files. calculate_image_hash lp md5 f = Some h \<and> h \<noteq> []})
       \<and> distinct (map fst (duplicates (shared pl)))
       \<and> (\<forall>schedule' pl'.
             run_schedule lp md5 files (initial_pool st0 files) schedule' = Some pl' \<and> all_done pl' \<longrightarrow>
             (\<forall>h. set (group_members (shared pl') h) = set (group_members (shared pl) h)))"
proof -
  from assms(1) have e: "duplicates st0 = []" by (simp add: fresh_index_def)
  have fin: "lock q = None
       \<and> (\<exists>order. mset order = mset files \<and> shared q = process_all lp md5 st0 order)"
    if "run_schedule lp md5 files (initial_pool st0 files) sched = Some q" and "all_done q"
    for sched q
    using finished_pool [OF run_schedule_inv [OF initial_pool_inv that(1)] that(2)] .
  have grp: "\<forall>h. set (group_members (shared q) h)
               = {f \<in> set files. calculate_image_hash lp md5 f = Some h \<and> h \<noteq> []}"
    if "run_schedule lp md5 files (initial_pool st0 files) sched = Some q" and "all_done q"
    for sched q
  proof -
    from fin [OF that] obtain order where
      o: "mset order = mset files" "shared q = process_all lp md5 st0 order"
      by blast
    from o(1) have "set order = set files" by (rule mset_eq_setD)
    then show ?thesis
      by (auto simp: o(2) group_members_run [OF assms(1)] with_hash_set)
  qed
  from fin [OF assms(2,3)] obtain order where
    o: "mset order = mset files" "shared pl = process_all lp md5 st0 order"
    by blast
  have keys: "distinct (map fst (duplicates (shared pl)))"
    unfolding o(2) by (rule duplicates_keys_distinct [OF e])
  have same: "\<forall>schedule' pl'.
             run_schedule lp md5 files (initial_pool st0 files) schedule' = Some pl' \<and> all_done pl' \<longrightarrow>
             (\<forall>h. set (group_members (shared pl') h) = set (group_members (shared pl) h))"
  proof (intro allI impI, elim conjE)
    fix schedule' pl' h
    assume "run_schedule lp md5 files (initial_pool st0 files) schedule' = Some pl'" "all_done pl'"
    from grp [OF this] grp [OF assms(2,3)]
    show "set (group_members (shared pl') h) = set (group_members (shared pl) h)" by simp
  qed
  from fin [OF assms(2,3)] grp [OF assms(2,3)] keys same show ?thesis by blast
qed

theorem every_interleaving_gives_the_same_groups_witness:
  "fresh_index (init_detector 12)
   \<and> run_schedule demo_pixels demo_md5 [''pics/a.jpg'', ''pics/b.jpg''] (initial_pool (init_detector 12) [''pics/a.jpg'', ''pics/b.jpg'']) schedule_a_first
       = Some \<lparr>shared = \<lparr>max_threads = 12, image_hashes = [(''12'', ''pics/a.jpg'')],
          duplicates = [(''12'', [''pics/a.jpg'', ''pics/b.jpg''])], processed_count = 2, total_files = 0\<rparr>,
        lock = None, positions = [W_done, W_done]\<rparr>
   \<and> all_done \<lparr>shared = \<lparr>max_threads = 12, image_hashes = [(''12'', ''pics/a.jpg'')],
          duplicates = [(''12'', [''pics/a.jpg'', ''pics/b.jpg''])], processed_count = 2, total_files = 0\<rparr>,
        lock = None, positions = [W_done, W_done]\<rparr>
   \<and> run_schedule demo_pixels demo_md5 [''pics/a.jpg'', ''pics/b.jpg''] (initial_pool (init_detector 12) [''pics/a.jpg'', ''pics/b.jpg'']) schedule_b_first
       = Some \<lparr>shared = \<lparr>max_threads = 12, image_hashes = [(''12'', ''pics/b.jpg'')],
          duplicates = [(''12'', [''pics/b.jpg'', ''pics/a.jpg''])], processed_count = 2, total_files = 0\<rparr>,
        lock = None, positions = [W_done, W_done]\<rparr>
   \<and> all_done \<lparr>shared = \<lparr>max_threads = 12, image_hashes = [(''12'', ''pics/b.jpg'')],
          duplicates = [(''12'', [''pics/b.jpg'', ''pics/a.jpg''])], processed_count = 2, total_files = 0\<rparr>,
        lock = None, positions = [W_done, W_done]\<rparr>
   \<and> set (group_members (shared \<lparr>shared = \<lparr>max_threads = 12, image_hashes = [(''12'', ''pics/b.jpg'')],
          duplicates = [(''12'', [''pics/b.jpg'', ''pics/a.jpg''])], processed_count = 2, total_files = 0\<rparr>,
        lock = None, positions = [W_done, W_done]\<rparr>) ''12'') = set (group_members (shared \<lparr>shared = \<lparr>max_threads = 12, image_hashes = [(''12'', ''pics/a.jpg'')],
          duplicates = [(''12'', [''pics/a.jpg'', ''pics/b.jpg''])], processed_count = 2, total_files = 0\<rparr>,
        lock = None, positions = [W_done, W_done]\<rparr>) ''12'')"
proof -
  have fr: "fresh_index (init_detector 12)"
    by code_simp
  have ra: "run_schedule demo_pixels demo_md5 [''pics/a.jpg'', ''pics/b.jpg''] (initial_pool (init_detector 12) [''pics/a.jpg'', ''pics/b.jpg'']) schedule_a_first
       = Some \<lparr>shared = \<lparr>max_threads = 12, image_hashes = [(''12'', ''pics/a.jpg'')],
          duplicates = [(''12'', [''pics/a.jpg'', ''pics/b.jpg''])], processed_count = 2, total_files = 0\<rparr>,
        lock = None, positions = [W_done, W_done]\<rparr>"
    by code_simp
  have da: "all_done \<lparr>shared = \<lparr>max_threads = 12, image_hashes = [(''12'', ''pics/a.jpg'')],
          duplicates = [(''12'', [''pics/a.jpg'', ''pics/b.jpg''])], processed_count = 2, total_files = 0\<rparr>,
        lock = None, positions = [W_done, W_done]\<rparr>"
    by code_simp
  have rb: "run_schedule demo_pixels demo_md5 [''pics/a.jpg'', ''pics/b.jpg''] (initial_pool (init_detector 12) [''pics/a.jpg'', ''pics/b.jpg'']) schedule_b_first
       = Some \<lparr>shared = \<lparr>max_threads = 12, image_hashes = [(''12'', ''pics/b.jpg'')],
          duplicates = [(''12'', [''pics/b.jpg'', ''pics/a.jpg''])], processed_count = 2, total_files = 0\<rparr>,
        lock = None, positions = [W_done, W_done]\<rparr>"
    by code_simp
  have db: "all_done \<lparr>shared = \<lparr>max_threads = 12, image_hashes = [(''12'', ''pics/b.jpg'')],
          duplicates = [(''12'', [''pics/b.jpg'', ''pics/a.jpg''])], processed_count = 2, total_files = 0\<rparr>,
        lock = None, positions = [W_done, W_done]\<rparr>"
    by code_simp
  note t = every_interleaving_gives_the_same_groups [OF fr ra da]
  note same = t [THEN conjunct2, THEN conjunct2, THEN conjunct2, THEN conjunct2, rule_format,
      OF conjI [OF rb db], of "''12''"]
  from fr ra da rb db same show ?thesis
    by (intro conjI) assumption+
qed

subsection \<open>Names of the backup copies\<close>

text \<open>
  C8. The suffix search of \<^verbatim>\<open>delete_duplicate_files\<close>, started at
  \<^verbatim>\<open>os.path.join(backup_dir, os.path.basename(file_path))\<close> with counter 1, returns: its
  path does not exist; it is the start path when that is free, and otherwise the
  name with \<^verbatim>\<open>_k\<close> put before the extension for the least \<open>k \<ge> 1\<close> whose path is
  free (the start path and every smaller suffix exist); the counter has moved at most
  once for each entry of the file system. A copy to that path that succeeds writes
  the file there and changes no other path, so no earlier backup is overwritten.
\<close>

theorem backup_name_is_free:
  assumes "base = join backup_dir (basename file_path)"
      and "backup_loop fs base base 1 = (backup_path, counter)"
  shows "backup_path = backup_path_for fs backup_dir file_path
       \<and> \<not> os_path_exists fs backup_path
       \<and> (if counter = 1 then backup_path = base
          else os_path_exists fs base
               \<and> backup_path = fst (splitext base) @ ''_'' @ str_nat (counter - 1) @ snd (splitext base)
               \<and> (\<forall>k. 1 \<le> k \<and> k < counter - 1 \<longrightarrow>
                      os_path_exists fs (fst (splitext base) @ ''_'' @ str_nat k @ snd (splitext base))))
       \<and> 1 \<le> counter \<and> counter \<le> length fs + 1
       \<and> (\<forall>fs1. shutil_copy2 env fs file_path backup_path = Inr fs1 \<longrightarrow>
             map_of fs1 backup_path = map_of fs file_path
             \<and> (\<forall>q. q \<noteq> backup_path \<longrightarrow> map_of fs1 q = map_of fs q))"
proof -
  have sfx: "\<And>k. suffixed base k = fst (splitext base) @ ''_'' @ str_nat k @ snd (splitext base)"
    by (simp add: suffixed_def split_beta)
  note r = backup_loop_result [OF assms(2)]
  have a: "backup_path = backup_path_for fs backup_dir file_path"
    using assms by (simp add: backup_path_for_def Let_def)
  from r have b: "\<not> os_path_exists fs backup_path" by simp
  have c: "if counter = 1 then backup_path = base
          else os_path_exists fs base
               \<and> backup_path = fst (splitext base) @ ''_'' @ str_nat (counter - 1) @ snd (splitext base)
               \<and> (\<forall>k. 1 \<le> k \<and> k < counter - 1 \<longrightarrow>
                      os_path_exists fs (fst (splitext base) @ ''_'' @ str_nat k @ snd (splitext base)))"
    using r by (auto simp: sfx)
  from r have d1: "1 \<le> counter" by simp
  have d2: "counter \<le> length fs + 1"
  proof (cases "counter = 1")
    case True
    then show ?thesis by simp
  next
    case False
    with r have "os_path_exists fs base"
      and "\<forall>k. 1 \<le> k \<and> k < counter - 1 \<longrightarrow> os_path_exists fs (suffixed base k)"
      by simp_all
    then have "counter - 1 \<le> length fs" by (rule tried_paths_bound)
    then show ?thesis by simp
  qed
  have e: "\<forall>fs1. shutil_copy2 env fs file_path backup_path = Inr fs1 \<longrightarrow>
             map_of fs1 backup_path = map_of fs file_path
             \<and> (\<forall>q. q \<noteq> backup_path \<longrightarrow> map_of fs1 q = map_of fs q)"
    using copy2_to_free_path(1) [OF b] by simp
  from a b c d1 d2 e show ?thesis by blast
qed

theorem backup_name_is_free_witness:
  "''bak/b.jpg'' = join ''bak'' (basename ''pics/b.jpg'')
   \<and> backup_loop demo_fs ''bak/b.jpg'' ''bak/b.jpg'' 1 = (''bak/b_2.jpg'', 3)
   \<and> ''bak/b_2.jpg'' = backup_path_for demo_fs ''bak'' ''pics/b.jpg''
   \<and> \<not> os_path_exists demo_fs ''bak/b_2.jpg''
   \<and> os_path_exists demo_fs ''bak/b.jpg''
   \<and> os_path_exists demo_fs ''bak/b_1.jpg''
   \<and> splitext ''bak/b.jpg'' = (''bak/b'', ''.jpg'')
   \<and> (\<exists>fs1. shutil_copy2 no_faults demo_fs ''pics/b.jpg'' ''bak/b_2.jpg'' = Inr fs1
         \<and> map_of fs1 ''bak/b_2.jpg'' = map_of demo_fs ''pics/b.jpg''
         \<and> map_of fs1 ''bak/b_1.jpg'' = map_of demo_fs ''bak/b_1.jpg'')"
proof -
  have start: "''bak/b.jpg'' = join ''bak'' (basename ''pics/b.jpg'')"
    by code_simp
  have search: "backup_loop demo_fs ''bak/b.jpg'' ''bak/b.jpg'' 1 = (''bak/b_2.jpg'', 3)"
    by code_simp
  have taken: "os_path_exists demo_fs ''bak/b.jpg''" "os_path_exists demo_fs ''bak/b_1.jpg''"
    by code_simp+
  have ext: "splitext ''bak/b.jpg'' = (''bak/b'', ''.jpg'')"
    by code_simp
  have copied: "shutil_copy2 no_faults demo_fs ''pics/b.jpg'' ''bak/b_2.jpg''
      = Inr (AList.update ''bak/b_2.jpg'' \<lparr>is_dir = False, content = ''AAAA'', node_mtime = 20\<rparr> demo_fs)"
    by code_simp
  note t = backup_name_is_free [OF start search, where env = no_faults]
  have free: "''bak/b_2.jpg'' = backup_path_for demo_fs ''bak'' ''pics/b.jpg''"
      "\<not> os_path_exists demo_fs ''bak/b_2.jpg''"
    by (rule t [THEN conjunct1], rule t [THEN conjunct2, THEN conjunct1])
  note cp = t [THEN conjunct2, THEN conjunct2, THEN conjunct2, THEN conjunct2, THEN conjunct2,
      rule_format, OF copied]
  have ne: "''bak/b_1.jpg'' \<noteq> ''bak/b_2.jpg''"
    by simp
  from cp ne
  have kept: "\<exists>fs1. shutil_copy2 no_faults demo_fs ''pics/b.jpg'' ''bak/b_2.jpg'' = Inr fs1
         \<and> map_of fs1 ''bak/b_2.jpg'' = map_of demo_fs ''pics/b.jpg''
         \<and> map_of fs1 ''bak/b_1.jpg'' = map_of demo_fs ''bak/b_1.jpg''"
    using copied by (intro exI [of _ "AList.update ''bak/b_2.jpg'' \<lparr>is_dir = False, content = ''AAAA'', node_mtime = 20\<rparr> demo_fs"]) (simp only: simp_thms)
  from start search free taken ext kept show ?thesis by (intro conjI) assumption+
qed

subsection \<open>The result of the scan\<close>




subsection \<open>Groups of the duplicates dictionary\<close>

text \<open>
  C10. At every moment of a run (the state \<open>st\<close> after the files \<open>xs\<close> have been
  processed, from a detector with empty dictionaries): a list stored in
  \<^verbatim>\<open>duplicates\<close> under a fingerprint has at least two members, it is the list of the
  processed files with that fingerprint in processing order, and its first element
  is the file \<^verbatim>\<open>image_hashes\<close> holds, the first one discovered. A key that is absent
  before a file \<open>x\<close> is processed and present after it is created by the second file
  of that fingerprint, with the list \<open>[first, x]\<close>. Every group that
  \<^verbatim>\<open>display_results\<close> prints has at least two files.
\<close>

theorem duplicates_groups_have_two_members:
  assumes "fresh_index st0" and "st = process_all lp md5 st0 xs"
  shows "(map_of (duplicates st) h = Some l \<longrightarrow>
            2 \<le> length l \<and> l = with_hash lp md5 xs h \<and> map_of (image_hashes st) h = Some (hd l))
       \<and> (map_of (duplicates st) h = None \<and>
            map_of (duplicates (process_image lp md5 st x)) h = Some l' \<longrightarrow>
            (\<exists>first. with_hash lp md5 xs h = [first] \<and> calculate_image_hash lp md5 x = Some h
                     \<and> l' = [first, x]))
       \<and> (\<forall>(i, k, file_list) \<in> set (display_results st). 2 \<le> k \<and> length file_list = k)"
proof -
  from assms(1) have e: "image_hashes st0 = []" "duplicates st0 = []"
    by (simp_all add: fresh_index_def)
  have one: "map_of (duplicates st) h = Some l \<longrightarrow>
            2 \<le> length l \<and> l = with_hash lp md5 xs h \<and> map_of (image_hashes st) h = Some (hd l)"
    unfolding assms(2)
    by (auto simp: duplicates_lookup [OF e] image_hashes_lookup [OF e]
             split: if_splits list.splits)
  have two: "map_of (duplicates st) h = None \<and>
            map_of (duplicates (process_image lp md5 st x)) h = Some l' \<longrightarrow>
            (\<exists>first. with_hash lp md5 xs h = [first] \<and> calculate_image_hash lp md5 x = Some h
                     \<and> l' = [first, x])"
  proof (intro impI, elim conjE)
    assume a: "map_of (duplicates st) h = None"
       and b: "map_of (duplicates (process_image lp md5 st x)) h = Some l'"
    from b have b': "map_of (duplicates (process_all lp md5 st0 (xs @ [x]))) h = Some l'"
      by (simp add: process_all_snoc assms(2))
    from b' have h: "h \<noteq> []" and len: "2 \<le> length (with_hash lp md5 (xs @ [x]) h)"
      and l': "l' = with_hash lp md5 (xs @ [x]) h"
      by (auto simp: duplicates_lookup [OF e] split: if_splits)
    from a h have short: "\<not> 2 \<le> length (with_hash lp md5 xs h)"
      by (auto simp: assms(2) duplicates_lookup [OF e] split: if_splits)
    from len short have fx: "calculate_image_hash lp md5 x = Some h"
      by (auto simp: with_hash_snoc split: if_splits)
    with len short have "length (with_hash lp md5 xs h) = 1"
      by (simp add: with_hash_snoc)
    then obtain first where "with_hash lp md5 xs h = [first]"
      by (cases "with_hash lp md5 xs h") auto
    with fx l' show "\<exists>first. with_hash lp md5 xs h = [first] \<and> calculate_image_hash lp md5 x = Some h
                     \<and> l' = [first, x]"
      by (simp add: with_hash_snoc)
  qed
  have three: "\<forall>(i, k, file_list) \<in> set (display_results st). 2 \<le> k \<and> length file_list = k"
  proof -
    have "\<forall>(hv, fl) \<in> set (duplicates st). 2 \<le> length fl"
      by (auto simp: assms(2) duplicates_entries [OF e])
    then show ?thesis
      by (fastforce simp: display_results_def dest: set_zip_rightD)
  qed
  from one two three show ?thesis by blast
qed

theorem duplicates_groups_have_two_members_witness:
  "fresh_index (init_detector 12)
   \<and> map_of (duplicates (process_all demo_pixels demo_md5 (init_detector 12) [''pics/a.jpg''])) ''12'' = None
   \<and> map_of (duplicates (process_image demo_pixels demo_md5
         (process_all demo_pixels demo_md5 (init_detector 12) [''pics/a.jpg'']) ''pics/b.jpg'')) ''12''
       = Some [''pics/a.jpg'', ''pics/b.jpg'']
   \<and> with_hash demo_pixels demo_md5 [''pics/a.jpg''] ''12'' = [''pics/a.jpg'']
   \<and> calculate_image_hash demo_pixels demo_md5 ''pics/b.jpg'' = Some ''12''
   \<and> map_of (duplicates (process_all demo_pixels demo_md5 (init_detector 12)
         [''pics/a.jpg'', ''pics/c.jpg'', ''pics/b.jpg''])) ''12'' = Some [''pics/a.jpg'', ''pics/b.jpg'']
   \<and> map_of (image_hashes (process_all demo_pixels demo_md5 (init_detector 12)
         [''pics/a.jpg'', ''pics/c.jpg'', ''pics/b.jpg''])) ''12'' = Some ''pics/a.jpg''
   \<and> display_results (process_all demo_pixels demo_md5 (init_detector 12)
         [''pics/a.jpg'', ''pics/c.jpg'', ''pics/b.jpg'']) = [(1, 2, [''pics/a.jpg'', ''pics/b.jpg''])]"
proof -
  have fr: "fresh_index (init_detector 12)"
    by (simp add: fresh_index_def init_detector_def)
  have before: "map_of (duplicates (process_all demo_pixels demo_md5 (init_detector 12) [''pics/a.jpg''])) ''12'' = None"
    by code_simp
  have after: "map_of (duplicates (process_image demo_pixels demo_md5
         (process_all demo_pixels demo_md5 (init_detector 12) [''pics/a.jpg'']) ''pics/b.jpg'')) ''12''
       = Some [''pics/a.jpg'', ''pics/b.jpg'']"
    by code_simp
  have final: "map_of (duplicates (process_all demo_pixels demo_md5 (init_detector 12)
         [''pics/a.jpg'', ''pics/c.jpg'', ''pics/b.jpg''])) ''12'' = Some [''pics/a.jpg'', ''pics/b.jpg'']"
    by code_simp
  have shown: "display_results (process_all demo_pixels demo_md5 (init_detector 12)
         [''pics/a.jpg'', ''pics/c.jpg'', ''pics/b.jpg'']) = [(1, 2, [''pics/a.jpg'', ''pics/b.jpg''])]"
    by code_simp
  note step = duplicates_groups_have_two_members [OF fr refl,
      of demo_pixels demo_md5 "[''pics/a.jpg'']" "''12''" "[''pics/a.jpg'', ''pics/b.jpg'']" "''pics/b.jpg''"
         "[''pics/a.jpg'', ''pics/b.jpg'']"]
  note run = duplicates_groups_have_two_members [OF fr refl,
      of demo_pixels demo_md5 "[''pics/a.jpg'', ''pics/c.jpg'', ''pics/b.jpg'']" "''12''" "[''pics/a.jpg'', ''pics/b.jpg'']"
         "''pics/b.jpg''" "[]"]
  from step before after have s: "with_hash demo_pixels demo_md5 [''pics/a.jpg''] ''12'' = [''pics/a.jpg'']
      \<and> calculate_image_hash demo_pixels demo_md5 ''pics/b.jpg'' = Some ''12''"
    by auto
  from run final have r: "map_of (image_hashes (process_all demo_pixels demo_md5 (init_detector 12)
         [''pics/a.jpg'', ''pics/c.jpg'', ''pics/b.jpg''])) ''12'' = Some ''pics/a.jpg''"
    by simp
  from fr before after final shown s r show ?thesis by simp
qed

end
